theory Spec2Isabelle
  imports
    Main
    "HOL-Library.AList"
    "HOL-Library.Char_ord"
    "HOL-Library.List_Lexorder"
    "HOL-Library.Product_Lexorder"
begin

section \<open>Data model of \<open>solve.py\<close>\<close>

text \<open>
  The four feedback symbols of \<^verbatim>\<open>class GuessState(Enum)\<close>.
\<close>

datatype GuessState = UNKNOWN | INCORRECT | MISPLACED | CORRECT

text \<open>
  The exceptions the program can raise. \<open>SkipWordError\<close> is the program's own class;
  \<open>NoSuggestionsAccepted\<close> stands for \<^verbatim>\<open>Exception("No suggestions accepted")\<close>; the
  others are the built-in exceptions of dictionary and list indexing, of the enum
  constructor and of \<^verbatim>\<open>input\<close> at the end of the input.
\<close>

datatype error =
  KeyError | IndexError | ValueError | EOFError | SkipWordError | NoSuggestionsAccepted

text \<open>
  A Python \<^verbatim>\<open>dict\<close> is an association list in insertion order: \<open>map_of\<close> reads a key,
  \<open>AList.update\<close> assigns one (in place when the key is there, at the end when it is
  new). A Python \<^verbatim>\<open>set\<close> of words is the list of its elements in iteration order,
  without duplicates; \<open>set_add\<close> is \<^verbatim>\<open>set.add\<close> and \<open>set_pop\<close> is \<^verbatim>\<open>set.pop\<close>, which
  raises \<open>KeyError\<close> on the empty set. Which element \<^verbatim>\<open>pop\<close> takes and where \<^verbatim>\<open>add\<close>
  puts one are not specified by Python; the model takes the first and appends.
\<close>

type_synonym ('k, 'v) dict = "('k \<times> 'v) list"

type_synonym 'a pyset = "'a list"

definition set_add :: "'a \<Rightarrow> 'a pyset \<Rightarrow> 'a pyset" where
  "set_add x xs = (if x \<in> set xs then xs else xs @ [x])"

definition set_pop :: "'a pyset \<Rightarrow> error + ('a \<times> 'a pyset)" where
  "set_pop xs = (case xs of [] \<Rightarrow> Inl KeyError | x # rest \<Rightarrow> Inr (x, rest))"

definition ascii_lowercase :: string where
  "ascii_lowercase = ''abcdefghijklmnopqrstuvwxyz''"

text \<open>
  \<^verbatim>\<open>defaultdict(int)\<close> and \<^verbatim>\<open>Counter\<close>: reading a missing key gives 0, and
  \<^verbatim>\<open>d[k] += 1\<close> stores the old value plus one. \<^verbatim>\<open>Counter(word)\<close> counts the letters of
  the word from left to right, so its items come in the order of first occurrence.
\<close>

definition get0 :: "('k, int) dict \<Rightarrow> 'k \<Rightarrow> int" where
  "get0 d k = (case map_of d k of None \<Rightarrow> 0 | Some v \<Rightarrow> v)"

definition incr :: "'k \<Rightarrow> ('k, int) dict \<Rightarrow> ('k, int) dict" where
  "incr k d = AList.update k (get0 d k + 1) d"

definition Counter :: "string \<Rightarrow> (char, int) dict" where
  "Counter word = fold incr word []"

text \<open>
  The state of a \<^verbatim>\<open>WordleSolver\<close> object. \<open>misplaced_letters\<close> is a
  \<^verbatim>\<open>defaultdict(set)\<close> that is only ever read by key, so it is a total function whose
  default is the empty set. An entry \<open>(lo, hi)\<close> of \<open>letter_counts\<close> is the two-element
  list \<^verbatim>\<open>[min, max]\<close>.
\<close>

record solver =
  word_len :: nat
  words :: "string pyset"
  correct_letters :: "char option list"
  misplaced_letters :: "char \<Rightarrow> nat set"
  letter_counts :: "(char, int \<times> int) dict"

section \<open>Letter statistics\<close>

text \<open>
  \<^verbatim>\<open>find_min_max_letter_repeats\<close>: the inner loop over the alphabet for one word, then the
  loop over the words. Both dictionaries are created with the alphabet as their keys just
  before, so the reads \<^verbatim>\<open>min_repeats[letter]\<close> find their key; the model still returns
  \<open>KeyError\<close> where a key would be missing.
\<close>

fun repeats_of_word ::
  "(char, int) dict \<Rightarrow> string \<Rightarrow> (char, int) dict \<times> (char, int) dict
    \<Rightarrow> error + ((char, int) dict \<times> (char, int) dict)" where
  "repeats_of_word word_count [] (min_repeats, max_repeats) = Inr (min_repeats, max_repeats)"
| "repeats_of_word word_count (letter # rest) (min_repeats, max_repeats) =
     (case map_of min_repeats letter of
        None \<Rightarrow> Inl KeyError
      | Some lo \<Rightarrow>
          (case map_of max_repeats letter of
             None \<Rightarrow> Inl KeyError
           | Some hi \<Rightarrow>
               repeats_of_word word_count rest
                 (AList.update letter (min lo (get0 word_count letter)) min_repeats,
                  AList.update letter (max hi (get0 word_count letter)) max_repeats)))"

fun repeats_of_words ::
  "string list \<Rightarrow> (char, int) dict \<times> (char, int) dict
    \<Rightarrow> error + ((char, int) dict \<times> (char, int) dict)" where
  "repeats_of_words [] acc = Inr acc"
| "repeats_of_words (word # rest) acc =
     (case repeats_of_word (Counter word) ascii_lowercase acc of
        Inl e \<Rightarrow> Inl e
      | Inr acc' \<Rightarrow> repeats_of_words rest acc')"

definition find_min_max_letter_repeats ::
  "string pyset \<Rightarrow> error + ((char, int) dict \<times> (char, int) dict)" where
  "find_min_max_letter_repeats ws =
     repeats_of_words ws
       (map (\<lambda>letter. (letter, 999)) ascii_lowercase,
        map (\<lambda>letter. (letter, 0)) ascii_lowercase)"

text \<open>
  \<^verbatim>\<open>WordleSolver.__init__\<close>, with the set that \<^verbatim>\<open>read_dictionary(word_len)\<close> returns as a
  parameter: reading the dictionary file is outside the model. \<open>init_letter_counts\<close> is
  the dictionary comprehension over the alphabet that builds \<open>letter_counts\<close>.
\<close>

fun init_letter_counts ::
  "string \<Rightarrow> (char, int) dict \<Rightarrow> (char, int) dict \<Rightarrow> error + (char, int \<times> int) dict" where
  "init_letter_counts [] min_repeats max_repeats = Inr []"
| "init_letter_counts (letter # rest) min_repeats max_repeats =
     (case map_of min_repeats letter of
        None \<Rightarrow> Inl KeyError
      | Some lo \<Rightarrow>
          (case map_of max_repeats letter of
             None \<Rightarrow> Inl KeyError
           | Some hi \<Rightarrow>
               (case init_letter_counts rest min_repeats max_repeats of
                  Inl e \<Rightarrow> Inl e
                | Inr counts \<Rightarrow> Inr ((letter, (lo, hi)) # counts))))"

definition init :: "nat \<Rightarrow> string pyset \<Rightarrow> error + solver" where
  "init wl dictionary =
     (case find_min_max_letter_repeats dictionary of
        Inl e \<Rightarrow> Inl e
      | Inr (min_repeats, max_repeats) \<Rightarrow>
          (case init_letter_counts ascii_lowercase min_repeats max_repeats of
             Inl e \<Rightarrow> Inl e
           | Inr counts \<Rightarrow>
               Inr \<lparr> word_len = wl,
                     words = dictionary,
                     correct_letters = replicate wl None,
                     misplaced_letters = (\<lambda>letter. {}),
                     letter_counts = counts \<rparr>))"

section \<open>Feedback ingestion\<close>

text \<open>
  \<^verbatim>\<open>WordleSolver.process_feedback\<close>. \<open>scan_feedback\<close> is the loop over
  \<^verbatim>\<open>enumerate(zip(suggestion, feedback))\<close>: it carries the offset, the two per-round
  counters (\<^verbatim>\<open>defaultdict(int)\<close>, iterated afterwards, so dictionaries in insertion
  order) and the solver. The assignment \<^verbatim>\<open>self.correct_letters[offset] = letter\<close> raises
  \<open>IndexError\<close> beyond the end of the list. An \<open>UNKNOWN\<close> symbol matches none of the
  three tests and changes nothing.
\<close>

fun scan_feedback ::
  "nat \<Rightarrow> (char \<times> GuessState) list \<Rightarrow> (char, int) dict \<times> (char, int) dict \<times> solver
    \<Rightarrow> error + ((char, int) dict \<times> (char, int) dict \<times> solver)" where
  "scan_feedback offset [] acc = Inr acc"
| "scan_feedback offset ((letter, result) # rest)
       (correct_letter_counts, incorrect_letter_counts, st) =
     (case result of
        INCORRECT \<Rightarrow>
          scan_feedback (Suc offset) rest
            (correct_letter_counts, incr letter incorrect_letter_counts,
             st\<lparr>misplaced_letters :=
                  (misplaced_letters st)(letter := insert offset (misplaced_letters st letter))\<rparr>)
      | MISPLACED \<Rightarrow>
          scan_feedback (Suc offset) rest
            (incr letter correct_letter_counts, incorrect_letter_counts,
             st\<lparr>misplaced_letters :=
                  (misplaced_letters st)(letter := insert offset (misplaced_letters st letter))\<rparr>)
      | CORRECT \<Rightarrow>
          (if offset < length (correct_letters st)
           then scan_feedback (Suc offset) rest
                  (incr letter correct_letter_counts, incorrect_letter_counts,
                   st\<lparr>correct_letters := (correct_letters st)[offset := Some letter]\<rparr>)
           else Inl IndexError)
      | UNKNOWN \<Rightarrow>
          scan_feedback (Suc offset) rest (correct_letter_counts, incorrect_letter_counts, st))"

text \<open>
  The loop over \<^verbatim>\<open>correct_letter_counts.items()\<close> that raises the minimum bounds, and the
  loop over \<^verbatim>\<open>incorrect_letter_counts.items()\<close> that lowers the maximum bounds. Reading
  \<^verbatim>\<open>self.letter_counts[letter]\<close> raises \<open>KeyError\<close> for a letter outside the dictionary's
  keys.
\<close>

fun raise_min_counts ::
  "(char \<times> int) list \<Rightarrow> (char, int \<times> int) dict \<Rightarrow> error + (char, int \<times> int) dict" where
  "raise_min_counts [] counts = Inr counts"
| "raise_min_counts ((letter, count) # rest) counts =
     (case map_of counts letter of
        None \<Rightarrow> Inl KeyError
      | Some (lo, hi) \<Rightarrow>
          raise_min_counts rest (AList.update letter (max count lo, hi) counts))"

fun lower_max_counts ::
  "(char, int) dict \<Rightarrow> (char \<times> int) list \<Rightarrow> (char, int \<times> int) dict
    \<Rightarrow> error + (char, int \<times> int) dict" where
  "lower_max_counts suggestion_counts [] counts = Inr counts"
| "lower_max_counts suggestion_counts ((letter, count) # rest) counts =
     (let max_count = get0 suggestion_counts letter - count in
      case map_of counts letter of
        None \<Rightarrow> Inl KeyError
      | Some (lo, hi) \<Rightarrow>
          lower_max_counts suggestion_counts rest
            (AList.update letter (lo, min max_count hi) counts))"

definition process_feedback :: "solver \<Rightarrow> string \<Rightarrow> GuessState list \<Rightarrow> error + solver" where
  "process_feedback st suggestion feedback =
     (case scan_feedback 0 (zip suggestion feedback) ([], [], st) of
        Inl e \<Rightarrow> Inl e
      | Inr (correct_letter_counts, incorrect_letter_counts, st1) \<Rightarrow>
          (case raise_min_counts correct_letter_counts (letter_counts st1) of
             Inl e \<Rightarrow> Inl e
           | Inr counts1 \<Rightarrow>
               (case lower_max_counts (Counter suggestion) incorrect_letter_counts counts1 of
                  Inl e \<Rightarrow> Inl e
                | Inr counts2 \<Rightarrow> Inr (st1\<lparr>letter_counts := counts2\<rparr>))))"

section \<open>Filtering the candidates\<close>

text \<open>
  The four tests of \<^verbatim>\<open>WordleSolver.filter_words\<close>, each an \<^verbatim>\<open>any(...)\<close> that stops at
  the first element that holds. \<open>mismatches_correct\<close> reads \<^verbatim>\<open>word[offset]\<close> only where
  the fixed letter is set, and that read raises \<open>IndexError\<close> beyond the end of the word.
  \<open>outside_own_counts\<close> runs over the items of \<^verbatim>\<open>Counter(word)\<close> and reads
  \<^verbatim>\<open>self.letter_counts[letter]\<close>, which raises \<open>KeyError\<close> for a letter outside its keys.
\<close>

fun mismatches_correct :: "nat \<Rightarrow> char option list \<Rightarrow> string \<Rightarrow> error + bool" where
  "mismatches_correct offset [] word = Inr False"
| "mismatches_correct offset (None # rest) word = mismatches_correct (Suc offset) rest word"
| "mismatches_correct offset (Some letter # rest) word =
     (if offset < length word
      then (if letter \<noteq> word ! offset then Inr True
            else mismatches_correct (Suc offset) rest word)
      else Inl IndexError)"

definition at_forbidden_position :: "(char \<Rightarrow> nat set) \<Rightarrow> string \<Rightarrow> bool" where
  "at_forbidden_position misplaced word =
     list_ex (\<lambda>(offset, letter). offset \<in> misplaced letter) (enumerate 0 word)"

fun outside_own_counts :: "(char, int \<times> int) dict \<Rightarrow> (char \<times> int) list \<Rightarrow> error + bool" where
  "outside_own_counts counts [] = Inr False"
| "outside_own_counts counts ((letter, count) # rest) =
     (case map_of counts letter of
        None \<Rightarrow> Inl KeyError
      | Some (lo, hi) \<Rightarrow>
          (if \<not> (lo \<le> count \<and> count \<le> hi) then Inr True
           else outside_own_counts counts rest))"

definition outside_any_counts :: "(char, int \<times> int) dict \<Rightarrow> (char, int) dict \<Rightarrow> bool" where
  "outside_any_counts counts word_letter_counts =
     list_ex (\<lambda>(letter, (min_count, max_count)).
        \<not> (min_count \<le> get0 word_letter_counts letter
            \<and> get0 word_letter_counts letter \<le> max_count)) counts"

text \<open>
  The body of the loop for one word: \<open>Inr True\<close> when one of the tests says
  \<^verbatim>\<open>continue\<close>, \<open>Inr False\<close> when the word is added to \<^verbatim>\<open>new_words\<close>.
\<close>

definition rejects :: "solver \<Rightarrow> string \<Rightarrow> error + bool" where
  "rejects st word =
     (case mismatches_correct 0 (correct_letters st) word of
        Inl e \<Rightarrow> Inl e
      | Inr True \<Rightarrow> Inr True
      | Inr False \<Rightarrow>
          (if at_forbidden_position (misplaced_letters st) word then Inr True
           else (case outside_own_counts (letter_counts st) (Counter word) of
                   Inl e \<Rightarrow> Inl e
                 | Inr True \<Rightarrow> Inr True
                 | Inr False \<Rightarrow>
                     Inr (outside_any_counts (letter_counts st) (Counter word)))))"

fun filter_loop :: "solver \<Rightarrow> string list \<Rightarrow> string pyset \<Rightarrow> error + string pyset" where
  "filter_loop st [] new_words = Inr new_words"
| "filter_loop st (word # rest) new_words =
     (case rejects st word of
        Inl e \<Rightarrow> Inl e
      | Inr True \<Rightarrow> filter_loop st rest new_words
      | Inr False \<Rightarrow> filter_loop st rest (set_add word new_words))"

definition filter_words :: "solver \<Rightarrow> error + solver" where
  "filter_words st =
     (case filter_loop st (words st) [] of
        Inl e \<Rightarrow> Inl e
      | Inr new_words \<Rightarrow> Inr (st\<lparr>words := new_words\<rparr>))"

section \<open>Suggestions\<close>

text \<open>
  \<^verbatim>\<open>letter_word_counts\<close>. Each element of \<^verbatim>\<open>counts\<close> is a \<^verbatim>\<open>defaultdict(int)\<close> that is
  only read and incremented by key: a total function whose default is 0. The function
  changes its argument (\<^verbatim>\<open>pop\<close>, then \<^verbatim>\<open>add\<close>), so the model returns the set as the call
  leaves it beside the result, also when the call raises: \<open>KeyError\<close> from \<^verbatim>\<open>pop\<close> on the
  empty set, \<open>IndexError\<close> from \<^verbatim>\<open>counts[position]\<close> for a word longer than the one that
  was popped.
\<close>

fun count_letters ::
  "nat \<Rightarrow> string \<Rightarrow> (char \<Rightarrow> int) list \<Rightarrow> error + (char \<Rightarrow> int) list" where
  "count_letters position [] counts = Inr counts"
| "count_letters position (letter # rest) counts =
     (if position < length counts
      then count_letters (Suc position) rest
             (counts[position := (counts ! position)(letter := (counts ! position) letter + 1)])
      else Inl IndexError)"

fun count_words :: "string list \<Rightarrow> (char \<Rightarrow> int) list \<Rightarrow> error + (char \<Rightarrow> int) list" where
  "count_words [] counts = Inr counts"
| "count_words (word # rest) counts =
     (case count_letters 0 word counts of
        Inl e \<Rightarrow> Inl e
      | Inr counts' \<Rightarrow> count_words rest counts')"

definition letter_word_counts ::
  "string pyset \<Rightarrow> (error + (char \<Rightarrow> int) list) \<times> string pyset" where
  "letter_word_counts ws =
     (case set_pop ws of
        Inl e \<Rightarrow> (Inl e, ws)
      | Inr (word, ws1) \<Rightarrow>
          (let counts = replicate (length word) (\<lambda>letter. 0);
               ws2 = set_add word ws1
           in (count_words ws2 counts, ws2)))"

text \<open>
  \<^verbatim>\<open>find_suggestions\<close>. The score of a word is the sum of \<^verbatim>\<open>counts[position][letter]\<close> over
  its letters. \<^verbatim>\<open>sorted(scores, reverse=True)\<close> orders the pairs (score, word) downwards,
  pairs by their first component and then their second, words letter by letter; pairs
  that compare equal are equal, so the stable descending sort is the reverse of the
  ascending one.
\<close>

fun word_score :: "nat \<Rightarrow> string \<Rightarrow> (char \<Rightarrow> int) list \<Rightarrow> error + int" where
  "word_score position [] counts = Inr 0"
| "word_score position (letter # rest) counts =
     (if position < length counts
      then (case word_score (Suc position) rest counts of
              Inl e \<Rightarrow> Inl e
            | Inr subtotal \<Rightarrow> Inr ((counts ! position) letter + subtotal))
      else Inl IndexError)"

fun score_words :: "string list \<Rightarrow> (char \<Rightarrow> int) list \<Rightarrow> error + (int \<times> string) list" where
  "score_words [] counts = Inr []"
| "score_words (word # rest) counts =
     (case word_score 0 word counts of
        Inl e \<Rightarrow> Inl e
      | Inr subtotal \<Rightarrow>
          (case score_words rest counts of
             Inl e \<Rightarrow> Inl e
           | Inr scores \<Rightarrow> Inr ((subtotal, word) # scores)))"

definition find_suggestions ::
  "string pyset \<Rightarrow> nat \<Rightarrow> (error + (int \<times> string) list) \<times> string pyset" where
  "find_suggestions ws num_suggestions =
     (case letter_word_counts ws of
        (Inl e, ws') \<Rightarrow> (Inl e, ws')
      | (Inr counts, ws') \<Rightarrow>
          (case score_words ws' counts of
             Inl e \<Rightarrow> (Inl e, ws')
           | Inr scores \<Rightarrow> (Inr (take num_suggestions (rev (sort scores))), ws')))"

section \<open>The solve loop\<close>

text \<open>
  The statements of \<^verbatim>\<open>run_until_solved\<close> that follow \<^verbatim>\<open>filter_words\<close>: the statistics of the
  new candidates, and the dictionary comprehension over \<^verbatim>\<open>self.letter_counts.items()\<close>
  that takes the tighter of each old bound and the new statistic.
\<close>

fun tighten_counts ::
  "(char, int) dict \<Rightarrow> (char, int) dict \<Rightarrow> (char \<times> int \<times> int) list
    \<Rightarrow> error + (char, int \<times> int) dict" where
  "tighten_counts min_repeats max_repeats [] = Inr []"
| "tighten_counts min_repeats max_repeats ((letter, (min_count, max_count)) # rest) =
     (case map_of min_repeats letter of
        None \<Rightarrow> Inl KeyError
      | Some lo \<Rightarrow>
          (case map_of max_repeats letter of
             None \<Rightarrow> Inl KeyError
           | Some hi \<Rightarrow>
               (case tighten_counts min_repeats max_repeats rest of
                  Inl e \<Rightarrow> Inl e
                | Inr counts \<Rightarrow>
                    Inr ((letter, (max min_count lo, min max_count hi)) # counts))))"

definition tighten_letter_counts :: "solver \<Rightarrow> error + solver" where
  "tighten_letter_counts st =
     (case find_min_max_letter_repeats (words st) of
        Inl e \<Rightarrow> Inl e
      | Inr (min_repeats, max_repeats) \<Rightarrow>
          (case tighten_counts min_repeats max_repeats (letter_counts st) of
             Inl e \<Rightarrow> Inl e
           | Inr counts \<Rightarrow> Inr (st\<lparr>letter_counts := counts\<rparr>)))"

text \<open>
  One accepted round: \<^verbatim>\<open>process_feedback\<close>, \<^verbatim>\<open>filter_words\<close>, then the tightening.
\<close>

definition accept_feedback :: "solver \<Rightarrow> string \<Rightarrow> GuessState list \<Rightarrow> error + solver" where
  "accept_feedback st suggestion feedback =
     (case process_feedback st suggestion feedback of
        Inl e \<Rightarrow> Inl e
      | Inr st1 \<Rightarrow>
          (case filter_words st1 of
             Inl e \<Rightarrow> Inl e
           | Inr st2 \<Rightarrow> tighten_letter_counts st2))"

text \<open>
  \<^verbatim>\<open>input_guess\<close> reads the standard input, which the model holds as the list of the
  lines that \<^verbatim>\<open>input\<close> has still to return; \<^verbatim>\<open>input\<close> raises \<open>EOFError\<close> when none is
  left. A character of the model is a code point below 256. \<open>isspace\<close> holds of the
  code points below 256 that \<^verbatim>\<open>str.isspace\<close> accepts: tab to carriage return (9 to 13),
  the four separators 28 to 31, the space (32), next line (133, U+0085) and the
  no-break space (160, U+00A0); \<open>strip\<close> is \<^verbatim>\<open>str.strip\<close>, which removes these at both
  ends. The function returns its result or exception together with the lines that
  remain. \<open>GuessState_of\<close> is the enum's constructor \<^verbatim>\<open>GuessState(i)\<close>, which raises
  \<open>ValueError\<close> for any other character.
\<close>

definition isspace :: "char \<Rightarrow> bool" where
  "isspace c = (of_char c \<in> set [9, 10, 11, 12, 13, 28, 29, 30, 31, 32, 133, 160 :: nat])"

definition strip :: "string \<Rightarrow> string" where
  "strip s = rev (dropWhile isspace (rev (dropWhile isspace s)))"

definition GuessState_of :: "char \<Rightarrow> error + GuessState" where
  "GuessState_of c =
     (if c = CHR ''_'' then Inr UNKNOWN
      else if c = CHR ''x'' then Inr INCORRECT
      else if c = CHR ''?'' then Inr MISPLACED
      else if c = CHR ''+'' then Inr CORRECT
      else Inl ValueError)"

fun GuessStates_of :: "string \<Rightarrow> error + GuessState list" where
  "GuessStates_of [] = Inr []"
| "GuessStates_of (c # cs) =
     (case GuessState_of c of
        Inl e \<Rightarrow> Inl e
      | Inr g \<Rightarrow>
          (case GuessStates_of cs of
             Inl e \<Rightarrow> Inl e
           | Inr gs \<Rightarrow> Inr (g # gs)))"

fun input_guess :: "nat option \<Rightarrow> string list \<Rightarrow> (error + GuessState list) \<times> string list" where
  "input_guess expect_len [] = (Inl EOFError, [])"
| "input_guess expect_len (line # rest) =
     (let text_input = strip line in
      if text_input = [] then (Inl SkipWordError, rest)
      else if expect_len \<noteq> None \<and> Some (length text_input) \<noteq> expect_len
      then input_guess expect_len rest
      else (GuessStates_of text_input, rest))"

text \<open>
  The \<^verbatim>\<open>for\<close> loop of \<^verbatim>\<open>run_until_solved\<close> that offers the suggestions one at a time:
  \<open>SkipWordError\<close> is caught and the next suggestion is offered, any other exception
  leaves the loop and the function. The result is the accepted suggestion with its
  feedback, or \<open>None\<close> when every suggestion was declined (\<^verbatim>\<open>feedback is None\<close>).
\<close>

fun offer_suggestions ::
  "nat \<Rightarrow> string list \<Rightarrow> string list
    \<Rightarrow> (error + (string \<times> GuessState list) option) \<times> string list" where
  "offer_suggestions wl [] stdin = (Inr None, stdin)"
| "offer_suggestions wl (suggestion # rest) stdin =
     (case input_guess (Some wl) stdin of
        (Inr feedback, stdin') \<Rightarrow> (Inr (Some (suggestion, feedback)), stdin')
      | (Inl SkipWordError, stdin') \<Rightarrow> offer_suggestions wl rest stdin'
      | (Inl e, stdin') \<Rightarrow> (Inl e, stdin'))"

text \<open>
  \<^verbatim>\<open>run_until_solved\<close>. \<^verbatim>\<open>find_suggestions\<close> works on \<^verbatim>\<open>self.words\<close> itself, so the solver
  goes on with the set as that call left it. The input is the finite list of the lines
  still to be read, and \<^verbatim>\<open>input\<close> raises \<open>EOFError\<close> at its end; every round that goes
  back to the head of the loop has read at least one line, so on every such input the
  loop ends (the termination proof below). An interactive input that never ends is
  outside the model.
\<close>

function run_until_solved :: "solver \<Rightarrow> string list \<Rightarrow> error + string option" where
  "run_until_solved st stdin =
     (if length (words st) > 1
      then (case find_suggestions (words st) 10 of
              (Inl e, ws) \<Rightarrow> Inl e
            | (Inr suggestions, ws) \<Rightarrow>
                (case offer_suggestions (word_len st) (map snd suggestions) stdin of
                   (Inl e, stdin') \<Rightarrow> Inl e
                 | (Inr None, stdin') \<Rightarrow> Inl NoSuggestionsAccepted
                 | (Inr (Some (suggestion, feedback)), stdin') \<Rightarrow>
                     (case accept_feedback (st\<lparr>words := ws\<rparr>) suggestion feedback of
                        Inl e \<Rightarrow> Inl e
                      | Inr st' \<Rightarrow> run_until_solved st' stdin')))
      else if length (words st) = 1
      then (case set_pop (words st) of
              Inl e \<Rightarrow> Inl e
            | Inr (word, ws) \<Rightarrow> Inr (Some word))
      else Inr None)"
  by pat_completeness auto

section \<open>The notions of the specification\<close>

subsection \<open>The data model\<close>

text \<open>
  The keys of a dictionary. The data model of the specification, which the types of the
  model do not enforce: a Word is a sequence of exactly \<open>word_len\<close> lowercase letters;
  \<open>correct_letters\<close> has one entry for each position; \<open>letter_counts\<close> has the letters
  of the alphabet as its keys, as \<open>init\<close> builds it; the candidates are Words, without
  duplicates, as the elements of a set are.
\<close>

definition keys :: "('k, 'v) dict \<Rightarrow> 'k set" where
  "keys d = fst ` set d"

definition lowercase_word :: "nat \<Rightarrow> string \<Rightarrow> bool" where
  "lowercase_word n w \<longleftrightarrow> length w = n \<and> set w \<subseteq> set ascii_lowercase"

definition wf_solver :: "solver \<Rightarrow> bool" where
  "wf_solver st \<longleftrightarrow>
     length (correct_letters st) = word_len st
     \<and> map fst (letter_counts st) = ascii_lowercase
     \<and> list_all (lowercase_word (word_len st)) (words st)
     \<and> distinct (words st)"

subsection \<open>The counts of a round and the updates of the bounds\<close>

text \<open>
  The two per-round counts of the specification, taken over all positions of a guess
  paired with its feedback: the number of Misplaced and Correct marks of a letter, and
  the number of its Incorrect marks.
\<close>

definition correctish_count :: "(char \<times> GuessState) list \<Rightarrow> char \<Rightarrow> int" where
  "correctish_count pairs letter =
     int (length (filter (\<lambda>(c, r). c = letter \<and> (r = MISPLACED \<or> r = CORRECT)) pairs))"

definition incorrect_count :: "(char \<times> GuessState) list \<Rightarrow> char \<Rightarrow> int" where
  "incorrect_count pairs letter =
     int (length (filter (\<lambda>(c, r). c = letter \<and> r = INCORRECT) pairs))"

text \<open>
  The two bound updates in the specification's words: a nonzero per-round count \<open>c\<close> of
  Misplaced and Correct marks raises the minimum to \<open>max(current min, c)\<close>; a nonzero
  per-round count \<open>k\<close> of Incorrect marks lowers the maximum to
  \<open>min(current max, guess_occurrences - k)\<close>.
\<close>

definition spec_min_bound :: "int \<Rightarrow> int \<Rightarrow> int" where
  "spec_min_bound current_min c = (if c \<noteq> 0 then max current_min c else current_min)"

definition spec_max_bound :: "int \<Rightarrow> int \<Rightarrow> int \<Rightarrow> int" where
  "spec_max_bound current_max guess_occurrences k =
     (if k \<noteq> 0 then min current_max (guess_occurrences - k) else current_max)"

text \<open>
  \<open>tighter st st'\<close>: every letter that has bounds in \<open>st\<close> still has bounds in \<open>st'\<close>,
  with a minimum that is not smaller and a maximum that is not larger.
\<close>

definition tighter :: "solver \<Rightarrow> solver \<Rightarrow> bool" where
  "tighter st st' \<longleftrightarrow>
     (\<forall>letter lo hi. map_of (letter_counts st) letter = Some (lo, hi) \<longrightarrow>
        (\<exists>lo' hi'. map_of (letter_counts st') letter = Some (lo', hi') \<and> lo \<le> lo' \<and> hi' \<le> hi))"

subsection \<open>The filter\<close>

text \<open>
  The filter in the specification's words. \<open>within_bounds st w letter\<close>: the number of
  occurrences of the letter in \<open>w\<close> lies between the letter's minimum and maximum.
  \<open>spec_keeps st w\<close>: (1) \<open>w\<close> agrees with every fixed letter; (2) no position of \<open>w\<close>
  carries a letter that is forbidden there; (3) every letter that occurs in \<open>w\<close> is within
  its bounds; (4) every letter of the alphabet is within its bounds, a letter that does
  not occur in \<open>w\<close> with the count 0.
\<close>

definition within_bounds :: "solver \<Rightarrow> string \<Rightarrow> char \<Rightarrow> bool" where
  "within_bounds st w letter \<longleftrightarrow>
     (case map_of (letter_counts st) letter of
        None \<Rightarrow> False
      | Some (lo, hi) \<Rightarrow> lo \<le> int (count_list w letter) \<and> int (count_list w letter) \<le> hi)"

definition spec_keeps :: "solver \<Rightarrow> string \<Rightarrow> bool" where
  "spec_keeps st w \<longleftrightarrow>
     (\<forall>i < length (correct_letters st). \<forall>c. correct_letters st ! i = Some c \<longrightarrow> w ! i = c)
     \<and> (\<forall>i < length w. i \<notin> misplaced_letters st (w ! i))
     \<and> (\<forall>letter \<in> set w. within_bounds st w letter)
     \<and> (\<forall>letter \<in> set ascii_lowercase. within_bounds st w letter)"

subsection \<open>Marks at a position\<close>

text \<open>
  \<open>marked_correct round i\<close>: the feedback of the round marks position \<open>i\<close> Correct.
  \<open>marked_elsewhere pairs offset i l\<close>: the scan of \<open>pairs\<close> that starts at \<open>offset\<close> finds
  the letter \<open>l\<close> at position \<open>i\<close> with the mark Incorrect or Misplaced.
\<close>

definition marked_correct :: "string \<times> GuessState list \<Rightarrow> nat \<Rightarrow> bool" where
  "marked_correct round i \<longleftrightarrow>
     i < length (fst round) \<and> i < length (snd round) \<and> snd round ! i = CORRECT"

definition marked_elsewhere :: "(char \<times> GuessState) list \<Rightarrow> nat \<Rightarrow> nat \<Rightarrow> char \<Rightarrow> bool" where
  "marked_elsewhere pairs offset i l \<longleftrightarrow>
     offset \<le> i \<and> i - offset < length pairs \<and> fst (pairs ! (i - offset)) = l
     \<and> (snd (pairs ! (i - offset)) = INCORRECT \<or> snd (pairs ! (i - offset)) = MISPLACED)"

subsection \<open>The judge of the puzzle\<close>

text \<open>
  Modelled from the spec: the judge of the puzzle, which compares a guess with the true
  answer and is not part of the repository (the program reads its verdicts from the
  input). The specification describes its symbols: Correct, the letter stands at exactly
  this position; Misplaced, the letter is in the answer but not at this position;
  Incorrect, the letter is absent, or present fewer times than guessed. \<open>judge\<close> is the
  rule of the puzzle that gives these symbols: every position whose letters agree is
  Correct; the answer's letters at the other positions form a pool; from left to right,
  a guessed letter at one of the other positions is Misplaced when the pool still holds
  it, which takes one occurrence out of the pool, and Incorrect when it does not.
\<close>

fun mark_others :: "(char \<times> char) list \<Rightarrow> string \<Rightarrow> GuessState list" where
  "mark_others [] pool = []"
| "mark_others ((g, a) # rest) pool =
     (if g = a then CORRECT # mark_others rest pool
      else if g \<in> set pool then MISPLACED # mark_others rest (remove1 g pool)
      else INCORRECT # mark_others rest pool)"

definition judge :: "string \<Rightarrow> string \<Rightarrow> GuessState list" where
  "judge answer guess =
     (let pairs = zip guess answer
      in mark_others pairs (map snd (filter (\<lambda>(g, a). g \<noteq> a) pairs)))"

text \<open>
  What the soundness of the solver needs of a feedback, whoever gives it: it has the
  length of the guess and of the answer; a Correct mark stands only where guess and
  answer agree, an Incorrect or Misplaced mark only where they differ; for every letter,
  the marks Misplaced and Correct are at most the letter's occurrences in the answer; and
  when the letter has an Incorrect mark, the answer has at most as many occurrences of it
  as the guess has occurrences that are not marked Incorrect. \<open>greens ps l\<close> is the
  number of positions at which guess and answer both hold the letter \<open>l\<close>.
\<close>

definition fair_feedback :: "string \<Rightarrow> string \<Rightarrow> GuessState list \<Rightarrow> bool" where
  "fair_feedback answer guess feedback \<longleftrightarrow>
     length feedback = length guess \<and> length guess = length answer
     \<and> (\<forall>i < length guess.
           (feedback ! i = CORRECT \<longrightarrow> guess ! i = answer ! i)
           \<and> (feedback ! i = INCORRECT \<or> feedback ! i = MISPLACED \<longrightarrow> guess ! i \<noteq> answer ! i))
     \<and> (\<forall>l. correctish_count (zip guess feedback) l \<le> int (count_list answer l))
     \<and> (\<forall>l. incorrect_count (zip guess feedback) l \<noteq> 0 \<longrightarrow>
           int (count_list answer l)
             \<le> int (count_list guess l) - incorrect_count (zip guess feedback) l)"

definition greens :: "(char \<times> char) list \<Rightarrow> char \<Rightarrow> int" where
  "greens ps l = int (length (filter (\<lambda>(g, a). g = l \<and> a = l) ps))"

text \<open>
  \<open>consistent answer st\<close>: the answer is a candidate and contradicts nothing of what the
  solver holds. \<open>play\<close> is a game against the judge: each guess in turn is answered with
  the judge's feedback for the true answer, and the solver takes the round as
  \<open>run_until_solved\<close> does (\<open>process_feedback\<close>, \<open>filter_words\<close>, tightening).
\<close>

definition consistent :: "string \<Rightarrow> solver \<Rightarrow> bool" where
  "consistent answer st \<longleftrightarrow>
     answer \<in> set (words st)
     \<and> (\<forall>i < length answer. \<forall>c. correct_letters st ! i = Some c \<longrightarrow> answer ! i = c)
     \<and> (\<forall>i < length answer. i \<notin> misplaced_letters st (answer ! i))
     \<and> (\<forall>l \<in> set ascii_lowercase. within_bounds st answer l)"

fun play :: "string \<Rightarrow> solver \<Rightarrow> string list \<Rightarrow> error + solver" where
  "play answer st [] = Inr st"
| "play answer st (guess # guesses) =
     (case accept_feedback st guess (judge answer guess) of
        Inl e \<Rightarrow> Inl e
      | Inr st' \<Rightarrow> play answer st' guesses)"

subsection \<open>The states of the solve loop\<close>

text \<open>
  \<open>reachable st\<close>: the program can bring a solver into the state \<open>st\<close>. It starts from
  what \<open>init\<close> builds from a dictionary of Words; \<open>find_suggestions\<close> may reorder the
  candidates; and a round of \<open>run_until_solved\<close> takes the feedback for a guess that is
  one of the candidates, as every suggestion is. The feedback is whatever the input
  gives. \<open>reaches st st'\<close>: the same steps lead from \<open>st\<close> to \<open>st'\<close>.
  \<open>settled st\<close>: the solver meets the data model and every candidate passes the filter
  of its own store, as it does at the head of the loop.
\<close>

definition settled :: "solver \<Rightarrow> bool" where
  "settled st \<longleftrightarrow> wf_solver st \<and> list_all (spec_keeps st) (words st)"

inductive reachable :: "solver \<Rightarrow> bool" where
  start: "list_all (lowercase_word wl) dictionary \<Longrightarrow> distinct dictionary
      \<Longrightarrow> init wl dictionary = Inr st \<Longrightarrow> reachable st"
| suggest: "reachable st \<Longrightarrow> find_suggestions (words st) n = (r, ws)
      \<Longrightarrow> reachable (st\<lparr>words := ws\<rparr>)"
| round: "reachable st \<Longrightarrow> guess \<in> set (words st)
      \<Longrightarrow> accept_feedback st guess feedback = Inr st' \<Longrightarrow> reachable st'"

inductive reaches :: "solver \<Rightarrow> solver \<Rightarrow> bool" where
  here: "reaches st st"
| suggest: "reaches st st1 \<Longrightarrow> find_suggestions (words st1) n = (r, ws)
      \<Longrightarrow> reaches st (st1\<lparr>words := ws\<rparr>)"
| round: "reaches st st1 \<Longrightarrow> guess \<in> set (words st1)
      \<Longrightarrow> accept_feedback st1 guess feedback = Inr st2 \<Longrightarrow> reaches st st2"

section \<open>Example states\<close>

text \<open>
  A solver for two-letter words after one round in which the guess \<open>ad\<close> got the
  feedback \<open>x+\<close>: the second letter is fixed to \<open>d\<close>, the letter \<open>a\<close> is ruled out at
  the first position, and every letter may occur up to twice.
\<close>

definition example_solver :: solver where
  "example_solver =
     \<lparr> word_len = 2,
       words = [''ab'', ''cd'', ''ad''],
       correct_letters = [None, Some (CHR ''d'')],
       misplaced_letters = (\<lambda>letter. {})(CHR ''a'' := {0}),
       letter_counts = map (\<lambda>letter. (letter, (0, 2))) ascii_lowercase \<rparr>"

text \<open>
  The solver that \<open>init\<close> builds from the dictionary \<open>ab\<close>, \<open>cd\<close>, \<open>ad\<close>.
\<close>

definition three_word_solver :: solver where
  "three_word_solver =
     \<lparr> word_len = 2,
       words = [''ab'', ''cd'', ''ad''],
       correct_letters = [None, None],
       misplaced_letters = (\<lambda>letter. {}),
       letter_counts =
         map (\<lambda>letter. (letter, if letter \<in> set ''abcd'' then (0, 1) else (0, 0)))
           ascii_lowercase \<rparr>"

text \<open>
  The solver that \<open>init\<close> builds from the dictionary \<open>aab\<close>, \<open>abc\<close>, \<open>bca\<close>.
\<close>

definition abc_solver :: solver where
  "abc_solver =
     \<lparr> word_len = 3,
       words = [''aab'', ''abc'', ''bca''],
       correct_letters = [None, None, None],
       misplaced_letters = (\<lambda>letter. {}),
       letter_counts =
         map (\<lambda>letter. (letter, if letter = CHR ''a'' then (1, 2)
                                  else if letter = CHR ''b'' then (1, 1)
                                  else if letter = CHR ''c'' then (0, 1) else (0, 0)))
           ascii_lowercase \<rparr>"

section \<open>Termination of the solve loop\<close>

text \<open>
  An accepted feedback has consumed at least one line of the input.
\<close>

lemma input_guess_shorter:
  "input_guess expect_len stdin = (Inr feedback, stdin') \<Longrightarrow> length stdin' < length stdin"
  by (induction stdin) (auto simp: Let_def split: if_splits)

lemma input_guess_not_longer:
  "input_guess expect_len stdin = (r, stdin') \<Longrightarrow> length stdin' \<le> length stdin"
  by (induction stdin) (auto simp: Let_def split: if_splits)

lemma offer_suggestions_shorter:
  "offer_suggestions wl suggestions stdin = (Inr (Some accepted), stdin')
    \<Longrightarrow> length stdin' < length stdin"
proof (induction suggestions arbitrary: stdin)
  case Nil
  then show ?case by simp
next
  case (Cons s suggestions)
  obtain r rest where ig: "input_guess (Some wl) stdin = (r, rest)"
    by (cases "input_guess (Some wl) stdin")
  show ?case
  proof (cases r)
    case (Inr feedback)
    with ig Cons.prems show ?thesis
      by (auto dest: input_guess_shorter)
  next
    case (Inl e)
    with ig Cons.prems have "e = SkipWordError" and "offer_suggestions wl suggestions rest = (Inr (Some accepted), stdin')"
      by (auto split: error.splits)
    then have "length stdin' < length rest" using Cons.IH by blast
    with ig show ?thesis using input_guess_not_longer by fastforce
  qed
qed

termination run_until_solved
  apply (relation "measure (\<lambda>(st, stdin). length stdin)")
   apply simp
  apply (auto dest: offer_suggestions_shorter [OF sym])
  done

declare run_until_solved.simps [simp del]

section \<open>Properties of the filter\<close>

lemma rejects_words_update [simp]: "rejects (st\<lparr>words := ws\<rparr>) word = rejects st word"
  by (simp add: rejects_def split: sum.splits bool.splits)

lemma filter_loop_words_update [simp]:
  "filter_loop (st\<lparr>words := ws'\<rparr>) ws acc = filter_loop st ws acc"
  by (induction ws arbitrary: acc) (simp_all split: sum.splits bool.splits)

lemma set_set_add [simp]: "set (set_add x xs) = insert x (set xs)"
  by (auto simp: set_add_def)

lemma distinct_set_add [simp]: "distinct (set_add x xs) = distinct xs"
  by (simp add: set_add_def)

lemma length_set_add: "length (set_add x xs) \<le> Suc (length xs)"
  by (simp add: set_add_def)

lemma filter_loop_set:
  "filter_loop st ws acc = Inr new_words
    \<Longrightarrow> set new_words = set acc \<union> {w \<in> set ws. rejects st w = Inr False}"
proof (induction ws arbitrary: acc)
  case Nil
  then show ?case by simp
next
  case (Cons w ws)
  then show ?case
    by (cases "rejects st w") (auto split: if_splits bool.splits)
qed

lemma filter_loop_no_error:
  "filter_loop st ws acc = Inr new_words \<Longrightarrow> w \<in> set ws \<Longrightarrow> \<exists>b. rejects st w = Inr b"
proof (induction ws arbitrary: acc)
  case Nil
  then show ?case by simp
next
  case (Cons v ws)
  then show ?case
    by (cases "rejects st v") (auto split: if_splits bool.splits)
qed

lemma filter_loop_distinct:
  "filter_loop st ws acc = Inr new_words \<Longrightarrow> distinct acc \<Longrightarrow> distinct new_words"
proof (induction ws arbitrary: acc)
  case Nil
  then show ?case by simp
next
  case (Cons w ws)
  then show ?case
    by (cases "rejects st w") (auto split: if_splits bool.splits)
qed

lemma filter_loop_length:
  "filter_loop st ws acc = Inr new_words \<Longrightarrow> length new_words \<le> length acc + length ws"
proof (induction ws arbitrary: acc)
  case Nil
  then show ?case by simp
next
  case (Cons w ws)
  show ?case
  proof (cases "rejects st w")
    case (Inl e)
    with Cons.prems show ?thesis by simp
  next
    case (Inr b)
    show ?thesis
    proof (cases b)
      case True
      with Inr Cons.prems have "filter_loop st ws acc = Inr new_words" by simp
      from Cons.IH [OF this] show ?thesis by simp
    next
      case False
      with Inr Cons.prems have "filter_loop st ws (set_add w acc) = Inr new_words" by simp
      from Cons.IH [OF this] length_set_add [of w acc] show ?thesis by simp
    qed
  qed
qed

lemma filter_loop_all_kept:
  "\<forall>w \<in> set ws. rejects st w = Inr False \<Longrightarrow> distinct (acc @ ws)
    \<Longrightarrow> filter_loop st ws acc = Inr (acc @ ws)"
proof (induction ws arbitrary: acc)
  case Nil
  then show ?case by simp
next
  case (Cons w ws)
  have "set_add w acc = acc @ [w]" using Cons.prems(2) by (simp add: set_add_def)
  moreover have "filter_loop st ws (acc @ [w]) = Inr ((acc @ [w]) @ ws)"
    using Cons.prems by (intro Cons.IH) auto
  ultimately show ?case using Cons.prems(1) by simp
qed

text \<open>
  Claim C4. Whenever \<open>filter_words\<close> returns, the candidates it leaves are among the
  candidates it was given: the new set is a subset of the old one, so it has at most as
  many elements, and the list that holds it is no longer either.
\<close>

theorem filter_words_subset:
  assumes "filter_words st = Inr st'"
  shows "set (words st') \<subseteq> set (words st)
    \<and> card (set (words st')) \<le> card (set (words st))
    \<and> length (words st') \<le> length (words st)"
proof -
  from assms obtain new_words where
    loop: "filter_loop st (words st) [] = Inr new_words" and st': "st' = st\<lparr>words := new_words\<rparr>"
    by (auto simp: filter_words_def split: sum.splits)
  have sub: "set new_words \<subseteq> set (words st)"
    using filter_loop_set [OF loop] by auto
  then have "card (set new_words) \<le> card (set (words st))"
    by (simp add: card_mono)
  moreover have "length new_words \<le> length (words st)"
    using filter_loop_length [OF loop] by simp
  ultimately show ?thesis using sub st' by simp
qed

theorem filter_words_subset_witness:
  "filter_words example_solver = Inr (example_solver\<lparr>words := [''cd'']\<rparr>)
    \<and> set (words (example_solver\<lparr>words := [''cd'']\<rparr>)) \<subseteq> set (words example_solver)
    \<and> card (set (words (example_solver\<lparr>words := [''cd'']\<rparr>)))
        \<le> card (set (words example_solver))"
proof -
  have run: "filter_words example_solver = Inr (example_solver\<lparr>words := [''cd'']\<rparr>)"
    by code_simp
  from filter_words_subset [OF run] run show ?thesis by blast
qed

text \<open>
  Claim C9. \<open>filter_words\<close> changes nothing of the solver but the candidates, and when
  it has returned, running it again on its own result returns that result unchanged.
\<close>

theorem filter_words_idempotent:
  assumes "filter_words st = Inr st'"
  shows "filter_words st' = Inr st'"
proof -
  from assms obtain new_words where
    loop: "filter_loop st (words st) [] = Inr new_words" and st': "st' = st\<lparr>words := new_words\<rparr>"
    by (auto simp: filter_words_def split: sum.splits)
  have "distinct new_words"
    using filter_loop_distinct [OF loop] by simp
  moreover have "\<forall>w \<in> set new_words. rejects st w = Inr False"
    using filter_loop_set [OF loop] by auto
  ultimately have "filter_loop st new_words [] = Inr new_words"
    using filter_loop_all_kept [of new_words st "[]"] by simp
  then show ?thesis by (simp add: filter_words_def st')
qed

theorem filter_words_idempotent_witness:
  "filter_words example_solver = Inr (example_solver\<lparr>words := [''cd'']\<rparr>)
    \<and> filter_words (example_solver\<lparr>words := [''cd'']\<rparr>)
        = Inr (example_solver\<lparr>words := [''cd'']\<rparr>)"
proof -
  have run: "filter_words example_solver = Inr (example_solver\<lparr>words := [''cd'']\<rparr>)"
    by code_simp
  from filter_words_idempotent [OF run] run show ?thesis by blast
qed

section \<open>Counters and the scan of a feedback\<close>

lemma map_of_incr: "map_of (incr k d) l = (if l = k then Some (get0 d k + 1) else map_of d l)"
  by (simp add: incr_def update_conv')

lemma get0_incr: "get0 (incr k d) l = (if l = k then get0 d k + 1 else get0 d l)"
  by (simp add: get0_def map_of_incr)

lemma get0_fold_incr: "get0 (fold incr w d) l = get0 d l + int (count_list w l)"
  by (induction w arbitrary: d) (auto simp: get0_incr)

lemma get0_Counter: "get0 (Counter w) l = int (count_list w l)"
  using get0_fold_incr [of w "[]" l] by (simp add: Counter_def get0_def)

lemma keys_incr: "keys (incr k d) = insert k (keys d)"
  by (simp add: keys_def incr_def dom_update)

lemma keys_fold_incr: "keys (fold incr w d) = keys d \<union> set w"
  by (induction w arbitrary: d) (auto simp: keys_incr)

lemma keys_Counter: "keys (Counter w) = set w"
  using keys_fold_incr [of w "[]"] by (simp add: Counter_def keys_def)

lemma distinct_incr: "distinct (map fst d) \<Longrightarrow> distinct (map fst (incr k d))"
  by (simp add: incr_def distinct_update)

lemma distinct_fold_incr: "distinct (map fst d) \<Longrightarrow> distinct (map fst (fold incr w d))"
  by (induction w arbitrary: d) (auto simp: distinct_incr)

lemma distinct_Counter: "distinct (map fst (Counter w))"
  by (simp add: Counter_def distinct_fold_incr)

lemma Counter_item: "(l, c) \<in> set (Counter w) \<Longrightarrow> l \<in> set w \<and> c = int (count_list w l)"
proof -
  assume a: "(l, c) \<in> set (Counter w)"
  then have "map_of (Counter w) l = Some c" using distinct_Counter by simp
  then have "get0 (Counter w) l = c" by (simp add: get0_def)
  moreover have "l \<in> keys (Counter w)" using a by (force simp: keys_def)
  ultimately show ?thesis by (simp add: get0_Counter keys_Counter)
qed

lemma scan_feedback_frame:
  "scan_feedback offset pairs (cor, inc, st) = Inr (cor', inc', st')
    \<Longrightarrow> letter_counts st' = letter_counts st \<and> words st' = words st
      \<and> word_len st' = word_len st \<and> length (correct_letters st') = length (correct_letters st)"
proof (induction pairs arbitrary: offset cor inc st)
  case Nil
  then show ?case by simp
next
  case (Cons p pairs)
  obtain c r where p: "p = (c, r)" by (cases p)
  show ?case
  proof (cases r)
    case CORRECT
    with Cons.prems p have lt: "offset < length (correct_letters st)"
      and rec: "scan_feedback (Suc offset) pairs
           (incr c cor, inc, st\<lparr>correct_letters := (correct_letters st)[offset := Some c]\<rparr>)
           = Inr (cor', inc', st')"
      by (auto split: if_splits)
    from Cons.IH [OF rec] show ?thesis by simp
  next
    case UNKNOWN
    with Cons.prems p Cons.IH show ?thesis by auto
  next
    case INCORRECT
    with Cons.prems p Cons.IH [of "Suc offset" cor "incr c inc"] show ?thesis by auto
  next
    case MISPLACED
    with Cons.prems p Cons.IH [of "Suc offset" "incr c cor" inc] show ?thesis by auto
  qed
qed

lemma scan_feedback_counters:
  "scan_feedback offset pairs (cor, inc, st) = Inr (cor', inc', st')
    \<Longrightarrow> map_of cor' l =
          (if correctish_count pairs l = 0 then map_of cor l
           else Some (get0 cor l + correctish_count pairs l))
      \<and> map_of inc' l =
          (if incorrect_count pairs l = 0 then map_of inc l
           else Some (get0 inc l + incorrect_count pairs l))"
proof (induction pairs arbitrary: offset cor inc st)
  case Nil
  then show ?case by (simp add: correctish_count_def incorrect_count_def)
next
  case (Cons p pairs)
  obtain c r where p: "p = (c, r)" by (cases p)
  show ?case
  proof (cases r)
    case CORRECT
    with Cons.prems p have
      rec: "scan_feedback (Suc offset) pairs
           (incr c cor, inc, st\<lparr>correct_letters := (correct_letters st)[offset := Some c]\<rparr>)
           = Inr (cor', inc', st')"
      by (auto split: if_splits)
    from Cons.IH [OF rec] show ?thesis
      by (auto simp: p CORRECT correctish_count_def incorrect_count_def map_of_incr get0_incr)
  next
    case UNKNOWN
    with Cons.prems p have rec: "scan_feedback (Suc offset) pairs (cor, inc, st) = Inr (cor', inc', st')"
      by simp
    from Cons.IH [OF rec] show ?thesis
      by (auto simp: p UNKNOWN correctish_count_def incorrect_count_def)
  next
    case INCORRECT
    with Cons.prems p obtain st1 where
      rec: "scan_feedback (Suc offset) pairs (cor, incr c inc, st1) = Inr (cor', inc', st')"
      by simp
    from Cons.IH [OF rec] show ?thesis
      by (auto simp: p INCORRECT correctish_count_def incorrect_count_def map_of_incr get0_incr)
  next
    case MISPLACED
    with Cons.prems p obtain st1 where
      rec: "scan_feedback (Suc offset) pairs (incr c cor, inc, st1) = Inr (cor', inc', st')"
      by simp
    from Cons.IH [OF rec] show ?thesis
      by (auto simp: p MISPLACED correctish_count_def incorrect_count_def map_of_incr get0_incr)
  qed
qed

lemma scan_feedback_distinct:
  "scan_feedback offset pairs (cor, inc, st) = Inr (cor', inc', st')
    \<Longrightarrow> distinct (map fst cor) \<Longrightarrow> distinct (map fst inc)
    \<Longrightarrow> distinct (map fst cor') \<and> distinct (map fst inc')"
proof (induction pairs arbitrary: offset cor inc st)
  case Nil
  then show ?case by simp
next
  case (Cons p pairs)
  obtain c r where p: "p = (c, r)" by (cases p)
  show ?case
  proof (cases r)
    case CORRECT
    with Cons.prems p have
      rec: "scan_feedback (Suc offset) pairs
           (incr c cor, inc, st\<lparr>correct_letters := (correct_letters st)[offset := Some c]\<rparr>)
           = Inr (cor', inc', st')"
      by (auto split: if_splits)
    from Cons.IH [OF rec] Cons.prems(2,3) show ?thesis by (simp add: distinct_incr)
  next
    case UNKNOWN
    with Cons.prems p have rec: "scan_feedback (Suc offset) pairs (cor, inc, st) = Inr (cor', inc', st')"
      by simp
    from Cons.IH [OF rec] Cons.prems(2,3) show ?thesis by simp
  next
    case INCORRECT
    with Cons.prems p obtain st1 where
      rec: "scan_feedback (Suc offset) pairs (cor, incr c inc, st1) = Inr (cor', inc', st')"
      by simp
    from Cons.IH [OF rec] Cons.prems(2,3) show ?thesis by (simp add: distinct_incr)
  next
    case MISPLACED
    with Cons.prems p obtain st1 where
      rec: "scan_feedback (Suc offset) pairs (incr c cor, inc, st1) = Inr (cor', inc', st')"
      by simp
    from Cons.IH [OF rec] Cons.prems(2,3) show ?thesis by (simp add: distinct_incr)
  qed
qed

lemma scan_feedback_succeeds:
  "offset + length pairs \<le> length (correct_letters st)
    \<Longrightarrow> \<exists>cor' inc' st'. scan_feedback offset pairs (cor, inc, st) = Inr (cor', inc', st')"
proof (induction pairs arbitrary: offset cor inc st)
  case Nil
  then show ?case by simp
next
  case (Cons p pairs)
  obtain c r where p: "p = (c, r)" by (cases p)
  from Cons.prems show ?case
    by (cases r) (simp_all add: p Cons.IH)
qed

section \<open>What a round does to the bounds\<close>

lemma keys_update_present: "k \<in> keys d \<Longrightarrow> keys (AList.update k v d) = keys d"
  by (auto simp: keys_def dom_update)

lemma map_of_None_keys: "map_of d k = None \<longleftrightarrow> k \<notin> keys d"
  by (simp add: keys_def map_of_eq_None_iff)

lemma raise_min_counts_map_of:
  "raise_min_counts items counts = Inr counts' \<Longrightarrow> distinct (map fst items)
    \<Longrightarrow> map_of counts' l =
        (case map_of items l of
           None \<Rightarrow> map_of counts l
         | Some c \<Rightarrow> map_option (\<lambda>(lo, hi). (max c lo, hi)) (map_of counts l))"
proof (induction items arbitrary: counts)
  case Nil
  then show ?case by simp
next
  case (Cons item items)
  obtain k c where item: "item = (k, c)" by (cases item)
  from Cons.prems(1) item obtain lo hi where
    look: "map_of counts k = Some (lo, hi)" and
    rec: "raise_min_counts items (AList.update k (max c lo, hi) counts) = Inr counts'"
    by (auto split: option.splits)
  from Cons.prems(2) item have d: "distinct (map fst items)" and notin: "map_of items k = None"
    by (auto simp: map_of_eq_None_iff)
  from Cons.IH [OF rec d] look notin show ?case
    by (auto simp: item update_conv' split: option.splits)
qed

lemma raise_min_counts_keys:
  "raise_min_counts items counts = Inr counts' \<Longrightarrow> map fst counts' = map fst counts"
proof (induction items arbitrary: counts)
  case Nil
  then show ?case by simp
next
  case (Cons item items)
  obtain k c where item: "item = (k, c)" by (cases item)
  from Cons.prems(1) item obtain lo hi where
    look: "map_of counts k = Some (lo, hi)" and
    rec: "raise_min_counts items (AList.update k (max c lo, hi) counts) = Inr counts'"
    by (auto split: option.splits)
  from look have "k \<in> fst ` set counts" by (force dest: map_of_SomeD)
  with Cons.IH [OF rec] show ?case by (simp add: update_keys)
qed

lemma raise_min_counts_succeeds:
  "fst ` set items \<subseteq> keys counts \<Longrightarrow> \<exists>counts'. raise_min_counts items counts = Inr counts'"
proof (induction items arbitrary: counts)
  case Nil
  then show ?case by simp
next
  case (Cons item items)
  obtain k c where item: "item = (k, c)" by (cases item)
  from Cons.prems item have k: "k \<in> keys counts" by simp
  then obtain lo hi where look: "map_of counts k = Some (lo, hi)"
    by (cases "map_of counts k") (auto simp: map_of_None_keys)
  have "fst ` set items \<subseteq> keys (AList.update k (max c lo, hi) counts)"
    using Cons.prems item k by (simp add: keys_update_present)
  from Cons.IH [OF this] look show ?case by (simp add: item)
qed

lemma lower_max_counts_map_of:
  "lower_max_counts sc items counts = Inr counts' \<Longrightarrow> distinct (map fst items)
    \<Longrightarrow> map_of counts' l =
        (case map_of items l of
           None \<Rightarrow> map_of counts l
         | Some c \<Rightarrow> map_option (\<lambda>(lo, hi). (lo, min (get0 sc l - c) hi)) (map_of counts l))"
proof (induction items arbitrary: counts)
  case Nil
  then show ?case by simp
next
  case (Cons item items)
  obtain k c where item: "item = (k, c)" by (cases item)
  from Cons.prems(1) item obtain lo hi where
    look: "map_of counts k = Some (lo, hi)" and
    rec: "lower_max_counts sc items (AList.update k (lo, min (get0 sc k - c) hi) counts) = Inr counts'"
    by (auto simp: Let_def split: option.splits)
  from Cons.prems(2) item have d: "distinct (map fst items)" and notin: "map_of items k = None"
    by (auto simp: map_of_eq_None_iff)
  from Cons.IH [OF rec d] look notin show ?case
    by (auto simp: item update_conv' split: option.splits)
qed

lemma lower_max_counts_keys:
  "lower_max_counts sc items counts = Inr counts' \<Longrightarrow> map fst counts' = map fst counts"
proof (induction items arbitrary: counts)
  case Nil
  then show ?case by simp
next
  case (Cons item items)
  obtain k c where item: "item = (k, c)" by (cases item)
  from Cons.prems(1) item obtain lo hi where
    look: "map_of counts k = Some (lo, hi)" and
    rec: "lower_max_counts sc items (AList.update k (lo, min (get0 sc k - c) hi) counts) = Inr counts'"
    by (auto simp: Let_def split: option.splits)
  from look have "k \<in> fst ` set counts" by (force dest: map_of_SomeD)
  with Cons.IH [OF rec] show ?case by (simp add: update_keys)
qed

lemma lower_max_counts_succeeds:
  "fst ` set items \<subseteq> keys counts \<Longrightarrow> \<exists>counts'. lower_max_counts sc items counts = Inr counts'"
proof (induction items arbitrary: counts)
  case Nil
  then show ?case by simp
next
  case (Cons item items)
  obtain k c where item: "item = (k, c)" by (cases item)
  from Cons.prems item have k: "k \<in> keys counts" by simp
  then obtain lo hi where look: "map_of counts k = Some (lo, hi)"
    by (cases "map_of counts k") (auto simp: map_of_None_keys)
  have "fst ` set items \<subseteq> keys (AList.update k (lo, min (get0 sc k - c) hi) counts)"
    using Cons.prems item k by (simp add: keys_update_present)
  from Cons.IH [OF this] look show ?case by (simp add: item Let_def)
qed

text \<open>
  What \<open>process_feedback\<close> leaves in \<open>letter_counts\<close>, whenever it returns.
\<close>

lemma process_feedback_counts:
  assumes run: "process_feedback st suggestion feedback = Inr st'"
    and look: "map_of (letter_counts st) letter = Some (lo, hi)"
  shows "map_of (letter_counts st') letter =
      Some (if correctish_count (zip suggestion feedback) letter = 0 then lo
            else max (correctish_count (zip suggestion feedback) letter) lo,
            if incorrect_count (zip suggestion feedback) letter = 0 then hi
            else min (int (count_list suggestion letter)
                       - incorrect_count (zip suggestion feedback) letter) hi)"
proof -
  let ?pairs = "zip suggestion feedback"
  from run obtain cor inc st1 counts1 counts2 where
    scan: "scan_feedback 0 ?pairs ([], [], st) = Inr (cor, inc, st1)" and
    mins: "raise_min_counts cor (letter_counts st1) = Inr counts1" and
    maxs: "lower_max_counts (Counter suggestion) inc counts1 = Inr counts2" and
    st': "st' = st1\<lparr>letter_counts := counts2\<rparr>"
    by (auto simp: process_feedback_def split: sum.splits)
  have same: "letter_counts st1 = letter_counts st"
    using scan_feedback_frame [OF scan] by simp
  have dist: "distinct (map fst cor)" "distinct (map fst inc)"
    using scan_feedback_distinct [OF scan] by simp_all
  have cor: "map_of cor letter =
      (if correctish_count ?pairs letter = 0 then None else Some (correctish_count ?pairs letter))"
    and inc: "map_of inc letter =
      (if incorrect_count ?pairs letter = 0 then None else Some (incorrect_count ?pairs letter))"
    using scan_feedback_counters [OF scan, of letter] by (simp_all add: get0_def)
  have "map_of counts1 letter =
      Some (if correctish_count ?pairs letter = 0 then lo
            else max (correctish_count ?pairs letter) lo, hi)"
    using raise_min_counts_map_of [OF mins dist(1), of letter] cor look same by simp
  then show ?thesis
    using lower_max_counts_map_of [OF maxs dist(2), of letter] inc
    by (simp add: st' get0_Counter)
qed

lemma process_feedback_frame:
  assumes run: "process_feedback st suggestion feedback = Inr st'"
  shows "words st' = words st \<and> word_len st' = word_len st
    \<and> length (correct_letters st') = length (correct_letters st)
    \<and> map fst (letter_counts st') = map fst (letter_counts st)"
proof -
  let ?pairs = "zip suggestion feedback"
  from run obtain cor inc st1 counts1 counts2 where
    scan: "scan_feedback 0 ?pairs ([], [], st) = Inr (cor, inc, st1)" and
    mins: "raise_min_counts cor (letter_counts st1) = Inr counts1" and
    maxs: "lower_max_counts (Counter suggestion) inc counts1 = Inr counts2" and
    st': "st' = st1\<lparr>letter_counts := counts2\<rparr>"
    by (auto simp: process_feedback_def split: sum.splits)
  from scan_feedback_frame [OF scan] raise_min_counts_keys [OF mins]
    lower_max_counts_keys [OF maxs] st'
  show ?thesis by simp
qed

lemma correctish_count_keys:
  "correctish_count (zip suggestion feedback) l \<noteq> 0 \<Longrightarrow> l \<in> set suggestion"
  by (auto simp: correctish_count_def filter_empty_conv dest: set_zip_leftD)

lemma incorrect_count_keys:
  "incorrect_count (zip suggestion feedback) l \<noteq> 0 \<Longrightarrow> l \<in> set suggestion"
  by (auto simp: incorrect_count_def filter_empty_conv dest: set_zip_leftD)

lemma process_feedback_succeeds:
  assumes len: "min (length suggestion) (length feedback) \<le> length (correct_letters st)"
    and known: "set suggestion \<subseteq> keys (letter_counts st)"
  shows "\<exists>st'. process_feedback st suggestion feedback = Inr st'"
proof -
  let ?pairs = "zip suggestion feedback"
  from len obtain cor inc st1 where
    scan: "scan_feedback 0 ?pairs ([], [], st) = Inr (cor, inc, st1)"
    using scan_feedback_succeeds [of 0 ?pairs st "[]" "[]"] by auto
  have same: "letter_counts st1 = letter_counts st"
    using scan_feedback_frame [OF scan] by simp
  have "fst ` set cor \<subseteq> set suggestion"
  proof
    fix l assume "l \<in> fst ` set cor"
    then have "map_of cor l \<noteq> None" by (simp add: map_of_eq_None_iff)
    then have "correctish_count ?pairs l \<noteq> 0"
      using scan_feedback_counters [OF scan, of l] by (auto split: if_splits)
    then show "l \<in> set suggestion" by (rule correctish_count_keys)
  qed
  with known same have "fst ` set cor \<subseteq> keys (letter_counts st1)" by auto
  from raise_min_counts_succeeds [OF this] obtain counts1 where
    mins: "raise_min_counts cor (letter_counts st1) = Inr counts1" by blast
  have k1: "keys counts1 = keys (letter_counts st)"
    using raise_min_counts_keys [OF mins] same by (simp add: keys_def flip: set_map)
  have "fst ` set inc \<subseteq> set suggestion"
  proof
    fix l assume "l \<in> fst ` set inc"
    then have "map_of inc l \<noteq> None" by (simp add: map_of_eq_None_iff)
    then have "incorrect_count ?pairs l \<noteq> 0"
      using scan_feedback_counters [OF scan, of l] by (auto split: if_splits)
    then show "l \<in> set suggestion" by (rule incorrect_count_keys)
  qed
  with known k1 have "fst ` set inc \<subseteq> keys counts1" by auto
  from lower_max_counts_succeeds [OF this] obtain counts2 where
    "lower_max_counts (Counter suggestion) inc counts1 = Inr counts2" by blast
  with scan mins show ?thesis by (simp add: process_feedback_def)
qed

section \<open>One update for each letter, with the totals of the round\<close>

text \<open>
  Claim C3. For a guess and a feedback of the same length, no longer than the solver's
  word length, with every guessed letter a key of \<open>letter_counts\<close>, \<open>process_feedback\<close>
  returns, and the bounds it leaves are those of one update per letter with the totals of
  the whole round: the minimum becomes the larger of the current minimum and the number
  of Misplaced and Correct marks of the letter when that number is not zero, the maximum
  becomes the smaller of the current maximum and the letter's occurrences in the guess
  minus the number of its Incorrect marks when that number is not zero. The letter may
  occur any number of times in the guess, with any mix of marks.
\<close>

theorem process_feedback_applies_totals:
  assumes "length suggestion = length feedback"
    and "length suggestion \<le> length (correct_letters st)"
    and "set suggestion \<subseteq> keys (letter_counts st)"
  shows "\<exists>st'. process_feedback st suggestion feedback = Inr st'
    \<and> map fst (letter_counts st') = map fst (letter_counts st)
    \<and> (\<forall>letter lo hi. map_of (letter_counts st) letter = Some (lo, hi) \<longrightarrow>
          map_of (letter_counts st') letter =
            Some (spec_min_bound lo (correctish_count (zip suggestion feedback) letter),
                  spec_max_bound hi (int (count_list suggestion letter))
                    (incorrect_count (zip suggestion feedback) letter)))"
proof -
  from assms obtain st' where run: "process_feedback st suggestion feedback = Inr st'"
    using process_feedback_succeeds [of suggestion feedback st] by auto
  have "map_of (letter_counts st') letter =
      Some (spec_min_bound lo (correctish_count (zip suggestion feedback) letter),
            spec_max_bound hi (int (count_list suggestion letter))
              (incorrect_count (zip suggestion feedback) letter))"
    if "map_of (letter_counts st) letter = Some (lo, hi)" for letter lo hi
    using process_feedback_counts [OF run that]
    by (simp add: spec_min_bound_def spec_max_bound_def max.commute min.commute)
  with run process_feedback_frame [OF run] show ?thesis by blast
qed

theorem process_feedback_applies_totals_witness:
  "length ''aa'' = length [CORRECT, INCORRECT]
    \<and> length ''aa'' \<le> length (correct_letters example_solver)
    \<and> set ''aa'' \<subseteq> keys (letter_counts example_solver)
    \<and> (\<exists>st'. process_feedback example_solver ''aa'' [CORRECT, INCORRECT] = Inr st'
          \<and> map_of (letter_counts st') (CHR ''a'') = Some (1, 1))"
proof -
  have h1: "length ''aa'' = length [CORRECT, INCORRECT]" by simp
  have h2: "length ''aa'' \<le> length (correct_letters example_solver)" by code_simp
  have h3: "set ''aa'' \<subseteq> keys (letter_counts example_solver)" by code_simp
  have look: "map_of (letter_counts example_solver) (CHR ''a'') = Some (0, 2)" by code_simp
  have c: "correctish_count (zip ''aa'' [CORRECT, INCORRECT]) (CHR ''a'') = 1" by code_simp
  have k: "incorrect_count (zip ''aa'' [CORRECT, INCORRECT]) (CHR ''a'') = 1" by code_simp
  have n: "int (count_list ''aa'' (CHR ''a'')) = 2" by code_simp
  from process_feedback_applies_totals [OF h1 h2 h3] look obtain st' where
    "process_feedback example_solver ''aa'' [CORRECT, INCORRECT] = Inr st'"
    "map_of (letter_counts st') (CHR ''a'') =
       Some (spec_min_bound 0 (correctish_count (zip ''aa'' [CORRECT, INCORRECT]) (CHR ''a'')),
             spec_max_bound 2 (int (count_list ''aa'' (CHR ''a'')))
               (incorrect_count (zip ''aa'' [CORRECT, INCORRECT]) (CHR ''a'')))"
    by blast
  then show ?thesis using h1 h2 h3
    by (simp only: c k n) (simp add: spec_min_bound_def spec_max_bound_def)
qed

section \<open>Bounds only tighten\<close>

lemma tighten_counts_map_of:
  "tighten_counts mn mx counts = Inr counts' \<Longrightarrow> map_of counts l = Some (lo, hi)
    \<Longrightarrow> \<exists>a b. map_of mn l = Some a \<and> map_of mx l = Some b
          \<and> map_of counts' l = Some (max lo a, min hi b)"
proof (induction counts arbitrary: counts')
  case Nil
  then show ?case by simp
next
  case (Cons item counts)
  obtain k lo0 hi0 where item: "item = (k, (lo0, hi0))" by (cases item) auto
  from Cons.prems(1) item obtain a b rest where
    a: "map_of mn k = Some a" and b: "map_of mx k = Some b" and
    rec: "tighten_counts mn mx counts = Inr rest" and
    res: "counts' = (k, (max lo0 a, min hi0 b)) # rest"
    by (auto split: option.splits sum.splits)
  show ?case
  proof (cases "l = k")
    case True
    with Cons.prems(2) item a b res show ?thesis by simp
  next
    case False
    with Cons.prems(2) item have "map_of counts l = Some (lo, hi)" by simp
    from Cons.IH [OF rec this] False res show ?thesis by simp
  qed
qed

lemma tighten_counts_keys:
  "tighten_counts mn mx counts = Inr counts' \<Longrightarrow> map fst counts' = map fst counts"
proof (induction counts arbitrary: counts')
  case Nil
  then show ?case by simp
next
  case (Cons item counts)
  obtain k lo0 hi0 where item: "item = (k, (lo0, hi0))" by (cases item) auto
  from Cons.prems(1) item obtain a b rest where
    rec: "tighten_counts mn mx counts = Inr rest" and
    res: "counts' = (k, (max lo0 a, min hi0 b)) # rest"
    by (auto split: option.splits sum.splits)
  from Cons.IH [OF rec] res item show ?case by simp
qed

lemma tighter_trans: "tighter a b \<Longrightarrow> tighter b c \<Longrightarrow> tighter a c"
  unfolding tighter_def by (meson order_trans)

lemma process_feedback_tighter:
  "process_feedback st suggestion feedback = Inr st' \<Longrightarrow> tighter st st'"
  unfolding tighter_def using process_feedback_counts by fastforce

lemma filter_words_letter_counts:
  "filter_words st = Inr st' \<Longrightarrow> letter_counts st' = letter_counts st"
  by (auto simp: filter_words_def split: sum.splits)

lemma tighten_letter_counts_tighter:
  "tighten_letter_counts st = Inr st' \<Longrightarrow> tighter st st'"
  unfolding tighter_def
  by (fastforce simp: tighten_letter_counts_def split: sum.splits dest: tighten_counts_map_of)

lemma accept_feedback_tighter:
  assumes "accept_feedback st suggestion feedback = Inr st'"
  shows "tighter st st'"
proof -
  from assms obtain st1 st2 where
    p: "process_feedback st suggestion feedback = Inr st1" and
    f: "filter_words st1 = Inr st2" and
    t: "tighten_letter_counts st2 = Inr st'"
    by (auto simp: accept_feedback_def split: sum.splits)
  have "tighter st1 st2"
    using filter_words_letter_counts [OF f] by (simp add: tighter_def)
  with process_feedback_tighter [OF p] tighten_letter_counts_tighter [OF t]
  show ?thesis by (blast intro: tighter_trans)
qed

text \<open>
  Claim C5. The bounds of every letter only tighten: whenever \<open>process_feedback\<close>
  returns, whenever the solve loop's tightening against the statistics of the new
  candidates returns, and whenever a whole accepted round (feedback, filter, tightening)
  returns, the new minimum is at least the old one and the new maximum at most the old
  one.
\<close>

theorem bounds_only_tighten:
  "(process_feedback st suggestion feedback = Inr st' \<longrightarrow> tighter st st')
    \<and> (tighten_letter_counts st = Inr st' \<longrightarrow> tighter st st')
    \<and> (accept_feedback st suggestion feedback = Inr st' \<longrightarrow> tighter st st')"
  using process_feedback_tighter tighten_letter_counts_tighter accept_feedback_tighter
  by blast

theorem bounds_only_tighten_witness:
  "(\<exists>st'. process_feedback example_solver ''ad'' [INCORRECT, CORRECT] = Inr st'
        \<and> tighter example_solver st'
        \<and> map_of (letter_counts example_solver) (CHR ''a'') = Some (0, 2)
        \<and> map_of (letter_counts st') (CHR ''a'') = Some (0, 0))
    \<and> (\<exists>st'. tighten_letter_counts example_solver = Inr st'
        \<and> tighter example_solver st'
        \<and> map_of (letter_counts st') (CHR ''a'') = Some (0, 1))
    \<and> (\<exists>st'. accept_feedback example_solver ''ad'' [INCORRECT, CORRECT] = Inr st'
        \<and> tighter example_solver st'
        \<and> map_of (letter_counts st') (CHR ''a'') = Some (0, 0))"
proof -
  let ?st1 = "example_solver
      \<lparr>letter_counts :=
          AList.update (CHR ''a'') (0, 0)
            (AList.update (CHR ''d'') (1, 2) (letter_counts example_solver))\<rparr>"
  let ?st2 = "example_solver
      \<lparr>letter_counts :=
          map (\<lambda>letter. (letter, if letter \<in> set ''abcd'' then (0, 1) else (0, 0)))
            ascii_lowercase\<rparr>"
  let ?st3 = "example_solver
      \<lparr>words := [''cd''],
       letter_counts :=
          map (\<lambda>letter. (letter, if letter \<in> set ''cd'' then (1, 1) else (0, 0)))
            ascii_lowercase\<rparr>"
  have r1: "process_feedback example_solver ''ad'' [INCORRECT, CORRECT] = Inr ?st1"
    by code_simp
  have r2: "tighten_letter_counts example_solver = Inr ?st2"
    by code_simp
  have r3: "accept_feedback example_solver ''ad'' [INCORRECT, CORRECT] = Inr ?st3"
    by code_simp
  have v0: "map_of (letter_counts example_solver) (CHR ''a'') = Some (0, 2)" by code_simp
  have v1: "map_of (letter_counts ?st1) (CHR ''a'') = Some (0, 0)" by code_simp
  have v2: "map_of (letter_counts ?st2) (CHR ''a'') = Some (0, 1)" by code_simp
  have v3: "map_of (letter_counts ?st3) (CHR ''a'') = Some (0, 0)" by code_simp
  have t1: "tighter example_solver ?st1"
    using bounds_only_tighten [of example_solver "''ad''" "[INCORRECT, CORRECT]" ?st1]
    by (simp only: r1 simp_thms)
  have t2: "tighter example_solver ?st2"
    using bounds_only_tighten [of example_solver "''ad''" "[INCORRECT, CORRECT]" ?st2]
    by (simp only: r2 simp_thms)
  have t3: "tighter example_solver ?st3"
    using bounds_only_tighten [of example_solver "''ad''" "[INCORRECT, CORRECT]" ?st3]
    by (simp only: r3 simp_thms)
  have a: "\<exists>st'. process_feedback example_solver ''ad'' [INCORRECT, CORRECT] = Inr st'
        \<and> tighter example_solver st'
        \<and> map_of (letter_counts example_solver) (CHR ''a'') = Some (0, 2)
        \<and> map_of (letter_counts st') (CHR ''a'') = Some (0, 0)"
    by (rule exI [of _ ?st1]) (intro conjI r1 t1 v0 v1)
  have b: "\<exists>st'. tighten_letter_counts example_solver = Inr st'
        \<and> tighter example_solver st'
        \<and> map_of (letter_counts st') (CHR ''a'') = Some (0, 1)"
    by (rule exI [of _ ?st2]) (intro conjI r2 t2 v2)
  have c: "\<exists>st'. accept_feedback example_solver ''ad'' [INCORRECT, CORRECT] = Inr st'
        \<and> tighter example_solver st'
        \<and> map_of (letter_counts st') (CHR ''a'') = Some (0, 0)"
    by (rule exI [of _ ?st3]) (intro conjI r3 t3 v3)
  show ?thesis by (intro conjI a b c)
qed

section \<open>The counts of a letter guessed twice, once Correct and once Incorrect\<close>

lemma positions_of_twice:
  assumes two: "count_list s l = 2"
    and i: "i < length s" "s ! i = l" and j: "j < length s" "s ! j = l" and ij: "i \<noteq> j"
  shows "{k. k < length s \<and> s ! k = l} = {i, j}"
proof -
  let ?K = "{k. k < length s \<and> s ! k = l}"
  have "?K = {k. k < length s \<and> l = s ! k}" by auto
  then have "card ?K = length (filter ((=) l) s)"
    by (simp only: length_filter_conv_card)
  then have c: "card ?K = 2"
    using two by (simp only: count_list_eq_length_filter)
  have sub: "{i, j} \<subseteq> ?K" using i j by blast
  have cij: "card {i, j} = 2" using ij by simp
  have fin: "finite ?K" by simp
  have "{i, j} = ?K"
    by (rule card_subset_eq [OF fin sub]) (simp only: c cij)
  then show ?thesis by (rule sym)
qed

lemma counts_of_correct_and_incorrect:
  assumes len: "length s = length f"
    and two: "count_list s l = 2"
    and i: "i < length s" "s ! i = l" "f ! i = CORRECT"
    and j: "j < length s" "s ! j = l" "f ! j = INCORRECT"
  shows "correctish_count (zip s f) l = 1 \<and> incorrect_count (zip s f) l = 1"
proof -
  from i(3) j(3) have ij: "i \<noteq> j" by auto
  have pos: "{k. k < length s \<and> s ! k = l} = {i, j}"
    using positions_of_twice [OF two i(1,2) j(1,2) ij] .
  have mem: "k < length s \<and> s ! k = l \<longleftrightarrow> k = i \<or> k = j" for k
    using pos by blast
  have nz: "zip s f ! k = (s ! k, f ! k)" if "k < length s" for k
    using that len by simp
  have lz: "length (zip s f) = length s" using len by simp
  have "{k. k < length (zip s f) \<and>
          (case zip s f ! k of (c, r) \<Rightarrow> c = l \<and> (r = MISPLACED \<or> r = CORRECT))} = {i}"
    (is "?A = _")
  proof (rule set_eqI)
    fix k
    show "k \<in> ?A \<longleftrightarrow> k \<in> {i}"
    proof (cases "k < length s")
      case True
      then have "k \<in> ?A \<longleftrightarrow> (s ! k = l \<and> (f ! k = MISPLACED \<or> f ! k = CORRECT))"
        using len by (simp add: nz)
      also have "\<dots> \<longleftrightarrow> k = i"
        using mem [of k] True i j by auto
      finally show ?thesis by simp
    next
      case False
      with i(1) show ?thesis using len by auto
    qed
  qed
  then have c: "correctish_count (zip s f) l = 1"
    by (simp only: correctish_count_def length_filter_conv_card) simp
  have "{k. k < length (zip s f) \<and>
          (case zip s f ! k of (c, r) \<Rightarrow> c = l \<and> r = INCORRECT)} = {j}"
    (is "?B = _")
  proof (rule set_eqI)
    fix k
    show "k \<in> ?B \<longleftrightarrow> k \<in> {j}"
    proof (cases "k < length s")
      case True
      then have "k \<in> ?B \<longleftrightarrow> (s ! k = l \<and> f ! k = INCORRECT)"
        using len by (simp add: nz)
      also have "\<dots> \<longleftrightarrow> k = j"
        using mem [of k] True i j by auto
      finally show ?thesis by simp
    next
      case False
      with j(1) show ?thesis using len by auto
    qed
  qed
  then have "incorrect_count (zip s f) l = 1"
    by (simp only: incorrect_count_def length_filter_conv_card) simp
  with c show ?thesis by simp
qed

section \<open>What a call does to the fixed letters\<close>

lemma scan_feedback_correct_letters:
  "scan_feedback offset pairs (cor, inc, st) = Inr (cor', inc', st')
    \<Longrightarrow> i < length (correct_letters st)
    \<Longrightarrow> correct_letters st' ! i =
        (if offset \<le> i \<and> i - offset < length pairs \<and> snd (pairs ! (i - offset)) = CORRECT
         then Some (fst (pairs ! (i - offset)))
         else correct_letters st ! i)"
proof (induction pairs arbitrary: offset cor inc st)
  case Nil
  then show ?case by simp
next
  case (Cons p pairs)
  obtain c r where p: "p = (c, r)" by (cases p)
  have shift: "Suc offset \<le> i \<Longrightarrow> (p # pairs) ! (i - offset) = pairs ! (i - Suc offset)"
    by (simp add: Suc_diff_Suc less_eq_Suc_le)
  have here: "\<not> Suc offset \<le> i \<Longrightarrow> offset \<le> i \<Longrightarrow> i = offset" by simp
  show ?case
  proof (cases r)
    case CORRECT
    with Cons.prems p have lt: "offset < length (correct_letters st)"
      and rec: "scan_feedback (Suc offset) pairs
           (incr c cor, inc, st\<lparr>correct_letters := (correct_letters st)[offset := Some c]\<rparr>)
           = Inr (cor', inc', st')"
      by (auto split: if_splits)
    from Cons.IH [OF rec] Cons.prems(2)
    have ih: "correct_letters st' ! i =
        (if Suc offset \<le> i \<and> i - Suc offset < length pairs
            \<and> snd (pairs ! (i - Suc offset)) = CORRECT
         then Some (fst (pairs ! (i - Suc offset)))
         else (correct_letters st)[offset := Some c] ! i)"
      by simp
    show ?thesis
    proof (cases "Suc offset \<le> i")
      case True
      then have "i \<noteq> offset" "offset \<le> i" "i - offset = Suc (i - Suc offset)" by simp_all
      with ih True show ?thesis by simp
    next
      case False
      show ?thesis
      proof (cases "i = offset")
        case True
        with ih False lt show ?thesis by (simp add: p CORRECT)
      next
        case False
        with \<open>\<not> Suc offset \<le> i\<close> have "\<not> offset \<le> i" by simp
        with ih False \<open>\<not> Suc offset \<le> i\<close> show ?thesis by simp
      qed
    qed
  next
    case UNKNOWN
    with Cons.prems p have rec: "scan_feedback (Suc offset) pairs (cor, inc, st) = Inr (cor', inc', st')"
      by simp
    from Cons.IH [OF rec Cons.prems(2)]
    have ih: "correct_letters st' ! i =
        (if Suc offset \<le> i \<and> i - Suc offset < length pairs
            \<and> snd (pairs ! (i - Suc offset)) = CORRECT
         then Some (fst (pairs ! (i - Suc offset)))
         else correct_letters st ! i)" .
    show ?thesis
    proof (cases "Suc offset \<le> i")
      case True
      then have "offset \<le> i" "i - offset = Suc (i - Suc offset)" by simp_all
      with ih True show ?thesis by simp
    next
      case False
      then have "offset \<le> i \<Longrightarrow> i - offset = 0" by simp
      with ih False show ?thesis by (auto simp: p UNKNOWN)
    qed
  next
    case INCORRECT
    with Cons.prems p obtain st1 where
      rec: "scan_feedback (Suc offset) pairs (cor, incr c inc, st1) = Inr (cor', inc', st')"
      and st1: "correct_letters st1 = correct_letters st"
      by simp
    from Cons.IH [OF rec] Cons.prems(2) st1
    have ih: "correct_letters st' ! i =
        (if Suc offset \<le> i \<and> i - Suc offset < length pairs
            \<and> snd (pairs ! (i - Suc offset)) = CORRECT
         then Some (fst (pairs ! (i - Suc offset)))
         else correct_letters st ! i)" by simp
    show ?thesis
    proof (cases "Suc offset \<le> i")
      case True
      then have "offset \<le> i" "i - offset = Suc (i - Suc offset)" by simp_all
      with ih True show ?thesis by simp
    next
      case False
      then have "offset \<le> i \<Longrightarrow> i - offset = 0" by simp
      with ih False show ?thesis by (auto simp: p INCORRECT)
    qed
  next
    case MISPLACED
    with Cons.prems p obtain st1 where
      rec: "scan_feedback (Suc offset) pairs (incr c cor, inc, st1) = Inr (cor', inc', st')"
      and st1: "correct_letters st1 = correct_letters st"
      by simp
    from Cons.IH [OF rec] Cons.prems(2) st1
    have ih: "correct_letters st' ! i =
        (if Suc offset \<le> i \<and> i - Suc offset < length pairs
            \<and> snd (pairs ! (i - Suc offset)) = CORRECT
         then Some (fst (pairs ! (i - Suc offset)))
         else correct_letters st ! i)" by simp
    show ?thesis
    proof (cases "Suc offset \<le> i")
      case True
      then have "offset \<le> i" "i - offset = Suc (i - Suc offset)" by simp_all
      with ih True show ?thesis by simp
    next
      case False
      then have "offset \<le> i \<Longrightarrow> i - offset = 0" by simp
      with ih False show ?thesis by (auto simp: p MISPLACED)
    qed
  qed
qed

lemma process_feedback_correct_letters:
  assumes run: "process_feedback st suggestion feedback = Inr st'"
    and i: "i < length (correct_letters st)"
  shows "correct_letters st' ! i =
      (if marked_correct (suggestion, feedback) i then Some (suggestion ! i)
       else correct_letters st ! i)"
proof -
  let ?pairs = "zip suggestion feedback"
  from run obtain cor inc st1 counts1 counts2 where
    scan: "scan_feedback 0 ?pairs ([], [], st) = Inr (cor, inc, st1)" and
    st': "st' = st1\<lparr>letter_counts := counts2\<rparr>"
    by (auto simp: process_feedback_def split: sum.splits)
  from scan_feedback_correct_letters [OF scan i] st' show ?thesis
    by (auto simp: marked_correct_def)
qed

lemma process_feedback_stays_set:
  assumes "process_feedback st suggestion feedback = Inr st'"
    and "i < length (correct_letters st)"
    and "correct_letters st ! i = Some c"
  shows "correct_letters st' ! i =
      Some (if marked_correct (suggestion, feedback) i then suggestion ! i else c)"
  using process_feedback_correct_letters [OF assms(1,2)] assms(3) by simp

section \<open>Suggestions leave the candidates alone\<close>

lemma letter_word_counts_words:
  "snd (letter_word_counts ws) = (case ws of [] \<Rightarrow> [] | word # rest \<Rightarrow> set_add word rest)"
  by (cases ws) (simp_all add: letter_word_counts_def set_pop_def Let_def)

lemma find_suggestions_words: "snd (find_suggestions ws n) = snd (letter_word_counts ws)"
  by (cases "letter_word_counts ws")
    (auto simp: find_suggestions_def split: sum.splits)

text \<open>
  Claim C10. \<open>letter_word_counts\<close> takes one word out of the set to read its length and
  puts it back, so after the call, and after \<open>find_suggestions\<close> which makes it, the set
  holds the words it held before: for every non-empty set, and also for the empty one
  and when the call raises. The order in which the set is iterated may have changed.
\<close>

theorem find_suggestions_keeps_words:
  "set (snd (letter_word_counts ws)) = set ws \<and> set (snd (find_suggestions ws n)) = set ws"
  by (cases ws) (simp_all add: find_suggestions_words letter_word_counts_words)

text \<open>
  The suggestions for three two-letter words: every score counts, position by position,
  the candidates that share the letter.
\<close>

lemma find_suggestions_example:
  "find_suggestions [''ab'', ''cd'', ''ad''] 10
    = (Inr [(4, ''ad''), (3, ''cd''), (3, ''ab'')], [''cd'', ''ad'', ''ab''])"
  by code_simp

section \<open>The filter retains exactly the words the specification names\<close>

lemma distinct_ascii_lowercase: "distinct ascii_lowercase"
  by (simp add: ascii_lowercase_def)

lemma mismatches_correct_iff:
  "offset + length cl \<le> length w
    \<Longrightarrow> mismatches_correct offset cl w =
        Inr (\<exists>i < length cl. \<exists>c. cl ! i = Some c \<and> w ! (offset + i) \<noteq> c)"
proof (induction cl arbitrary: offset)
  case Nil
  then show ?case by simp
next
  case (Cons x cl)
  have ih: "mismatches_correct (Suc offset) cl w =
      Inr (\<exists>i < length cl. \<exists>c. cl ! i = Some c \<and> w ! (Suc offset + i) \<noteq> c)"
    using Cons.prems by (intro Cons.IH) simp
  have split: "(\<exists>i < length (x # cl). \<exists>c. (x # cl) ! i = Some c \<and> w ! (offset + i) \<noteq> c)
    \<longleftrightarrow> (\<exists>c. x = Some c \<and> w ! offset \<noteq> c)
       \<or> (\<exists>i < length cl. \<exists>c. cl ! i = Some c \<and> w ! (Suc offset + i) \<noteq> c)"
    (is "?L \<longleftrightarrow> ?H \<or> ?T")
  proof
    assume ?L
    then obtain i c where i: "i < length (x # cl)" "(x # cl) ! i = Some c" "w ! (offset + i) \<noteq> c"
      by blast
    show "?H \<or> ?T"
    proof (cases i)
      case 0
      with i show ?thesis by simp
    next
      case (Suc k)
      with i have "k < length cl" "cl ! k = Some c" "w ! (Suc offset + k) \<noteq> c" by simp_all
      then show ?thesis by blast
    qed
  next
    assume "?H \<or> ?T"
    then show ?L
    proof
      assume ?H
      then have "0 < length (x # cl) \<and> (\<exists>c. (x # cl) ! 0 = Some c \<and> w ! (offset + 0) \<noteq> c)"
        by simp
      then show ?L by blast
    next
      assume ?T
      then obtain k c where "k < length cl" "cl ! k = Some c" "w ! (Suc offset + k) \<noteq> c"
        by blast
      then have "Suc k < length (x # cl) \<and> (x # cl) ! Suc k = Some c \<and> w ! (offset + Suc k) \<noteq> c"
        by simp
      then show ?L by blast
    qed
  qed
  show ?case
  proof (cases x)
    case None
    with ih split show ?thesis by simp
  next
    case (Some c)
    from Cons.prems have "offset < length w" by simp
    with Some ih split show ?thesis by auto
  qed
qed

lemma at_forbidden_position_iff:
  "at_forbidden_position misplaced w \<longleftrightarrow> (\<exists>i < length w. i \<in> misplaced (w ! i))"
  by (auto simp: at_forbidden_position_def list_ex_iff in_set_enumerate_eq)

lemma outside_own_counts_iff:
  "fst ` set items \<subseteq> keys counts
    \<Longrightarrow> outside_own_counts counts items =
        Inr (\<exists>(letter, count) \<in> set items.
               case map_of counts letter of
                 None \<Rightarrow> False
               | Some (lo, hi) \<Rightarrow> \<not> (lo \<le> count \<and> count \<le> hi))"
proof (induction items)
  case Nil
  then show ?case by simp
next
  case (Cons item items)
  obtain k c where item: "item = (k, c)" by (cases item)
  from Cons.prems item have k: "k \<in> keys counts" by simp
  then obtain lo hi where look: "map_of counts k = Some (lo, hi)"
    by (cases "map_of counts k") (auto simp: map_of_None_keys)
  from Cons.prems have "fst ` set items \<subseteq> keys counts" by simp
  from Cons.IH [OF this] look show ?case by (simp add: item)
qed

lemma Counter_items: "set (Counter w) = (\<lambda>l. (l, int (count_list w l))) ` set w"
proof (intro set_eqI iffI)
  fix x assume "x \<in> set (Counter w)"
  moreover obtain l c where x: "x = (l, c)" by (cases x)
  ultimately have "(l, c) \<in> set (Counter w)" by simp
  from Counter_item [OF this] x show "x \<in> (\<lambda>l. (l, int (count_list w l))) ` set w"
    by simp
next
  fix x assume "x \<in> (\<lambda>l. (l, int (count_list w l))) ` set w"
  then obtain l where l: "l \<in> set w" "x = (l, int (count_list w l))" by blast
  then have "l \<in> keys (Counter w)" by (simp add: keys_Counter)
  then obtain c where c: "(l, c) \<in> set (Counter w)" by (auto simp: keys_def)
  with Counter_item [OF c] l show "x \<in> set (Counter w)" by simp
qed

lemma outside_any_counts_iff:
  assumes "distinct (map fst counts)"
  shows "outside_any_counts counts (Counter w) \<longleftrightarrow>
        (\<exists>letter \<in> keys counts.
           case map_of counts letter of
             None \<Rightarrow> False
           | Some (lo, hi) \<Rightarrow>
               \<not> (lo \<le> int (count_list w letter) \<and> int (count_list w letter) \<le> hi))"
  (is "?L \<longleftrightarrow> ?R")
proof
  assume ?L
  then obtain l lo hi where item: "(l, (lo, hi)) \<in> set counts"
    and out: "\<not> (lo \<le> int (count_list w l) \<and> int (count_list w l) \<le> hi)"
    by (auto simp: outside_any_counts_def list_ex_iff get0_Counter)
  from item assms have "map_of counts l = Some (lo, hi)" by simp
  moreover from item have "l \<in> keys counts" by (force simp: keys_def)
  ultimately show ?R using out by force
next
  assume ?R
  then obtain l lo hi where "map_of counts l = Some (lo, hi)"
    and out: "\<not> (lo \<le> int (count_list w l) \<and> int (count_list w l) \<le> hi)"
    by (auto split: option.splits)
  then have "(l, (lo, hi)) \<in> set counts" by (simp add: map_of_SomeD)
  with out show ?L
    by (force simp: outside_any_counts_def list_ex_iff get0_Counter)
qed

lemma wf_keys: "wf_solver st \<Longrightarrow> keys (letter_counts st) = set ascii_lowercase"
  by (simp add: wf_solver_def keys_def flip: set_map)

lemma wf_distinct_keys: "wf_solver st \<Longrightarrow> distinct (map fst (letter_counts st))"
  by (simp add: wf_solver_def distinct_ascii_lowercase)

lemma rejects_wf:
  assumes wf: "wf_solver st" and w: "lowercase_word (word_len st) w"
  shows "rejects st w = Inr (\<not> spec_keeps st w)"
proof -
  let ?counts = "letter_counts st"
  have len: "0 + length (correct_letters st) \<le> length w"
    using wf w by (simp add: wf_solver_def lowercase_word_def)
  have m: "mismatches_correct 0 (correct_letters st) w =
      Inr (\<exists>i < length (correct_letters st). \<exists>c. correct_letters st ! i = Some c \<and> w ! i \<noteq> c)"
    using mismatches_correct_iff [OF len] by simp
  have known: "set w \<subseteq> keys ?counts"
    using w wf_keys [OF wf] by (simp add: lowercase_word_def)
  have present: "map_of ?counts l \<noteq> None" if "l \<in> keys ?counts" for l
    using that by (simp add: map_of_None_keys)
  have "fst ` set (Counter w) \<subseteq> keys ?counts"
    using known keys_Counter [of w] by (simp add: keys_def)
  from outside_own_counts_iff [OF this]
  have "outside_own_counts ?counts (Counter w) =
      Inr (\<exists>l \<in> set w.
             case map_of ?counts l of
               None \<Rightarrow> False
             | Some (lo, hi) \<Rightarrow>
                 \<not> (lo \<le> int (count_list w l) \<and> int (count_list w l) \<le> hi))"
    by (simp add: Counter_items)
  moreover have "(case map_of ?counts l of
               None \<Rightarrow> False
             | Some (lo, hi) \<Rightarrow>
                 \<not> (lo \<le> int (count_list w l) \<and> int (count_list w l) \<le> hi))
      \<longleftrightarrow> \<not> within_bounds st w l" if "l \<in> set w" for l
    using present [of l] known that
    by (cases "map_of ?counts l") (auto simp: within_bounds_def)
  ultimately have o: "outside_own_counts ?counts (Counter w) =
      Inr (\<exists>l \<in> set w. \<not> within_bounds st w l)"
    by simp
  have a: "outside_any_counts ?counts (Counter w)
      \<longleftrightarrow> (\<exists>l \<in> set ascii_lowercase. \<not> within_bounds st w l)"
    using outside_any_counts_iff [OF wf_distinct_keys [OF wf], of w] present
    by (auto simp: wf_keys [OF wf] within_bounds_def split: option.splits)
  show ?thesis
    unfolding rejects_def m o a at_forbidden_position_iff spec_keeps_def
    by (auto split: bool.splits)
qed

lemma filter_loop_succeeds:
  "\<forall>w \<in> set ws. \<exists>b. rejects st w = Inr b \<Longrightarrow> \<exists>new_words. filter_loop st ws acc = Inr new_words"
proof (induction ws arbitrary: acc)
  case Nil
  then show ?case by simp
next
  case (Cons w ws)
  then obtain b where "rejects st w = Inr b" by auto
  with Cons show ?case by (cases b) simp_all
qed

text \<open>
  Claim C2. On a solver that meets the data model, \<open>filter_words\<close> returns, the
  candidates it leaves are exactly the candidates that satisfy the four conditions of
  the specification, and nothing else of the solver changes.
\<close>

theorem filter_words_retains_exactly:
  assumes "wf_solver st"
  shows "\<exists>st'. filter_words st = Inr st'
    \<and> set (words st') = {w \<in> set (words st). spec_keeps st w}
    \<and> st' = st\<lparr>words := words st'\<rparr>"
proof -
  have each: "rejects st w = Inr (\<not> spec_keeps st w)" if "w \<in> set (words st)" for w
    using rejects_wf [OF assms] that assms by (simp add: wf_solver_def list_all_iff)
  then have "\<forall>w \<in> set (words st). \<exists>b. rejects st w = Inr b" by blast
  from filter_loop_succeeds [OF this] obtain new_words where
    loop: "filter_loop st (words st) [] = Inr new_words" by blast
  have "set new_words = {w \<in> set (words st). spec_keeps st w}"
    using filter_loop_set [OF loop] each by auto
  with loop show ?thesis by (simp add: filter_words_def)
qed

theorem filter_words_retains_exactly_witness:
  "wf_solver example_solver
    \<and> (\<exists>st'. filter_words example_solver = Inr st'
          \<and> set (words st') = {w \<in> set (words example_solver). spec_keeps example_solver w}
          \<and> set (words st') = {''cd''})
    \<and> spec_keeps example_solver ''cd''
    \<and> \<not> spec_keeps example_solver ''ab''
    \<and> \<not> spec_keeps example_solver ''ad''"
proof -
  have wf: "wf_solver example_solver" by code_simp
  have run: "filter_words example_solver = Inr (example_solver\<lparr>words := [''cd'']\<rparr>)"
    by code_simp
  from filter_words_retains_exactly [OF wf] run
  have "set (words (example_solver\<lparr>words := [''cd'']\<rparr>))
      = {w \<in> set (words example_solver). spec_keeps example_solver w}"
    by auto
  with run have ex: "\<exists>st'. filter_words example_solver = Inr st'
          \<and> set (words st') = {w \<in> set (words example_solver). spec_keeps example_solver w}
          \<and> set (words st') = {''cd''}"
    by simp
  have k1: "spec_keeps example_solver ''cd''" by code_simp
  have k2: "\<not> spec_keeps example_solver ''ab''" by code_simp
  have k3: "\<not> spec_keeps example_solver ''ad''" by code_simp
  show ?thesis by (intro conjI wf ex k1 k2 k3)
qed

section \<open>What the letter statistics compute\<close>

text \<open>
  \<open>find_min_max_letter_repeats\<close> cannot raise, keeps the alphabet as the keys of both of
  its dictionaries, and for every letter returns a minimum that is at most, and a maximum
  that is at least, the number of occurrences of the letter in each word of the set.
\<close>

lemma keys_map_fst: "keys d = set (map fst d)"
  by (simp add: keys_def)

lemma map_fst_update_present:
  "k \<in> keys d \<Longrightarrow> map fst (AList.update k v d) = map fst d"
  by (simp add: update_keys keys_def)

lemma repeats_of_word_result:
  assumes "set letters \<subseteq> keys mn" and "set letters \<subseteq> keys mx"
  shows "\<exists>mn' mx'. repeats_of_word wc letters (mn, mx) = Inr (mn', mx')
    \<and> map fst mn' = map fst mn \<and> map fst mx' = map fst mx
    \<and> (\<forall>l. map_of mn' l =
          (if l \<in> set letters then map_option (\<lambda>m. min m (get0 wc l)) (map_of mn l)
           else map_of mn l))
    \<and> (\<forall>l. map_of mx' l =
          (if l \<in> set letters then map_option (\<lambda>m. max m (get0 wc l)) (map_of mx l)
           else map_of mx l))"
  using assms
proof (induction letters arbitrary: mn mx)
  case Nil
  then show ?case by simp
next
  case (Cons k letters)
  from Cons.prems have k: "k \<in> keys mn" "k \<in> keys mx" by simp_all
  then obtain a b where a: "map_of mn k = Some a" and b: "map_of mx k = Some b"
    by (cases "map_of mn k"; cases "map_of mx k") (auto simp: map_of_None_keys)
  let ?mn1 = "AList.update k (min a (get0 wc k)) mn"
  let ?mx1 = "AList.update k (max b (get0 wc k)) mx"
  have k1: "map fst ?mn1 = map fst mn" "map fst ?mx1 = map fst mx"
    using k by (simp_all add: map_fst_update_present)
  then have "keys ?mn1 = keys mn" "keys ?mx1 = keys mx"
    by (simp_all add: keys_map_fst)
  with Cons.prems have "set letters \<subseteq> keys ?mn1" "set letters \<subseteq> keys ?mx1" by simp_all
  from Cons.IH [OF this] obtain mn' mx' where
    run: "repeats_of_word wc letters (?mn1, ?mx1) = Inr (mn', mx')" and
    keys': "map fst mn' = map fst ?mn1" "map fst mx' = map fst ?mx1" and
    mn': "\<And>l. map_of mn' l =
          (if l \<in> set letters then map_option (\<lambda>m. min m (get0 wc l)) (map_of ?mn1 l)
           else map_of ?mn1 l)" and
    mx': "\<And>l. map_of mx' l =
          (if l \<in> set letters then map_option (\<lambda>m. max m (get0 wc l)) (map_of ?mx1 l)
           else map_of ?mx1 l)"
    by blast
  have "repeats_of_word wc (k # letters) (mn, mx) = Inr (mn', mx')"
    using a b run by simp
  moreover have "map_of mn' l =
          (if l \<in> set (k # letters) then map_option (\<lambda>m. min m (get0 wc l)) (map_of mn l)
           else map_of mn l)" for l
    using mn' [of l] a by (simp add: update_conv')
  moreover have "map_of mx' l =
          (if l \<in> set (k # letters) then map_option (\<lambda>m. max m (get0 wc l)) (map_of mx l)
           else map_of mx l)" for l
    using mx' [of l] b by (simp add: update_conv')
  ultimately show ?case using keys' k1 by simp
qed

lemma repeats_of_words_result:
  assumes "map fst mn = ascii_lowercase" and "map fst mx = ascii_lowercase"
  shows "\<exists>mn' mx'. repeats_of_words ws (mn, mx) = Inr (mn', mx')
    \<and> map fst mn' = ascii_lowercase \<and> map fst mx' = ascii_lowercase
    \<and> (\<forall>l \<in> set ascii_lowercase. \<exists>a a' b b'.
          map_of mn l = Some a \<and> map_of mn' l = Some a' \<and> a' \<le> a
          \<and> map_of mx l = Some b \<and> map_of mx' l = Some b' \<and> b \<le> b'
          \<and> (\<forall>w \<in> set ws. a' \<le> int (count_list w l) \<and> int (count_list w l) \<le> b'))"
  using assms
proof (induction ws arbitrary: mn mx)
  case Nil
  have "\<exists>a. map_of mn l = Some a" "\<exists>b. map_of mx l = Some b" if "l \<in> set ascii_lowercase" for l
    using that Nil
    by (cases "map_of mn l"; cases "map_of mx l"; auto simp: map_of_None_keys keys_map_fst)+
  with Nil show ?case by fastforce
next
  case (Cons w ws)
  have sub: "set ascii_lowercase \<subseteq> keys mn" "set ascii_lowercase \<subseteq> keys mx"
    using Cons.prems by (simp_all add: keys_map_fst)
  from repeats_of_word_result [OF sub, of "Counter w"] obtain mn1 mx1 where
    one: "repeats_of_word (Counter w) ascii_lowercase (mn, mx) = Inr (mn1, mx1)" and
    keys1: "map fst mn1 = map fst mn" "map fst mx1 = map fst mx" and
    mn1: "\<And>l. map_of mn1 l =
          (if l \<in> set ascii_lowercase
           then map_option (\<lambda>m. min m (get0 (Counter w) l)) (map_of mn l) else map_of mn l)" and
    mx1: "\<And>l. map_of mx1 l =
          (if l \<in> set ascii_lowercase
           then map_option (\<lambda>m. max m (get0 (Counter w) l)) (map_of mx l) else map_of mx l)"
    by blast
  from keys1 Cons.prems have k1: "map fst mn1 = ascii_lowercase" "map fst mx1 = ascii_lowercase"
    by simp_all
  from Cons.IH [OF k1] obtain mn' mx' where
    rest: "repeats_of_words ws (mn1, mx1) = Inr (mn', mx')" and
    keys': "map fst mn' = ascii_lowercase" "map fst mx' = ascii_lowercase" and
    ih: "\<And>l. l \<in> set ascii_lowercase \<Longrightarrow> \<exists>a a' b b'.
          map_of mn1 l = Some a \<and> map_of mn' l = Some a' \<and> a' \<le> a
          \<and> map_of mx1 l = Some b \<and> map_of mx' l = Some b' \<and> b \<le> b'
          \<and> (\<forall>w \<in> set ws. a' \<le> int (count_list w l) \<and> int (count_list w l) \<le> b')"
    by blast
  have run: "repeats_of_words (w # ws) (mn, mx) = Inr (mn', mx')"
    using one rest by simp
  have "\<exists>a a' b b'.
          map_of mn l = Some a \<and> map_of mn' l = Some a' \<and> a' \<le> a
          \<and> map_of mx l = Some b \<and> map_of mx' l = Some b' \<and> b \<le> b'
          \<and> (\<forall>v \<in> set (w # ws). a' \<le> int (count_list v l) \<and> int (count_list v l) \<le> b')"
    if l: "l \<in> set ascii_lowercase" for l
  proof -
    from ih [OF l] obtain a1 a' b1 b' where
      h: "map_of mn1 l = Some a1" "map_of mn' l = Some a'" "a' \<le> a1"
         "map_of mx1 l = Some b1" "map_of mx' l = Some b'" "b1 \<le> b'"
         "\<forall>w \<in> set ws. a' \<le> int (count_list w l) \<and> int (count_list w l) \<le> b'"
      by blast
    from h(1) mn1 [of l] l obtain a where
      a: "map_of mn l = Some a" "a1 = min a (int (count_list w l))"
      by (cases "map_of mn l") (auto simp: get0_Counter)
    from h(4) mx1 [of l] l obtain b where
      b: "map_of mx l = Some b" "b1 = max b (int (count_list w l))"
      by (cases "map_of mx l") (auto simp: get0_Counter)
    from h a b show ?thesis by auto
  qed
  with run keys' show ?case by blast
qed

lemma find_min_max_letter_repeats_result:
  "\<exists>mn mx. find_min_max_letter_repeats ws = Inr (mn, mx)
    \<and> map fst mn = ascii_lowercase \<and> map fst mx = ascii_lowercase
    \<and> (\<forall>l \<in> set ascii_lowercase. \<exists>a b. map_of mn l = Some a \<and> map_of mx l = Some b
          \<and> (\<forall>w \<in> set ws. a \<le> int (count_list w l) \<and> int (count_list w l) \<le> b))"
proof -
  let ?mn0 = "map (\<lambda>letter. (letter, 999 :: int)) ascii_lowercase"
  let ?mx0 = "map (\<lambda>letter. (letter, 0 :: int)) ascii_lowercase"
  have k: "map fst ?mn0 = ascii_lowercase" "map fst ?mx0 = ascii_lowercase"
    by (simp_all add: comp_def)
  from repeats_of_words_result [OF k, of ws] show ?thesis
    unfolding find_min_max_letter_repeats_def by blast
qed

lemma init_letter_counts_result:
  assumes "set letters \<subseteq> keys mn" and "set letters \<subseteq> keys mx"
  shows "\<exists>counts. init_letter_counts letters mn mx = Inr counts
    \<and> map fst counts = letters
    \<and> (\<forall>(l, (lo, hi)) \<in> set counts. map_of mn l = Some lo \<and> map_of mx l = Some hi)"
  using assms
proof (induction letters)
  case Nil
  then show ?case by simp
next
  case (Cons k letters)
  from Cons.prems have k: "k \<in> keys mn" "k \<in> keys mx" by simp_all
  then obtain a b where a: "map_of mn k = Some a" and b: "map_of mx k = Some b"
    by (cases "map_of mn k"; cases "map_of mx k") (auto simp: map_of_None_keys)
  from Cons.prems have "set letters \<subseteq> keys mn" "set letters \<subseteq> keys mx" by simp_all
  from Cons.IH [OF this] obtain counts where
    "init_letter_counts letters mn mx = Inr counts" "map fst counts = letters"
    "\<forall>(l, (lo, hi)) \<in> set counts. map_of mn l = Some lo \<and> map_of mx l = Some hi"
    by blast
  with a b show ?case by simp
qed

lemma tighten_counts_succeeds:
  assumes "keys counts \<subseteq> keys mn" and "keys counts \<subseteq> keys mx"
  shows "\<exists>counts'. tighten_counts mn mx counts = Inr counts'"
  using assms
proof (induction counts)
  case Nil
  then show ?case by simp
next
  case (Cons item counts)
  obtain k lo hi where item: "item = (k, (lo, hi))" by (cases item) auto
  from Cons.prems item have k: "k \<in> keys mn" "k \<in> keys mx" by (simp_all add: keys_def)
  then obtain a b where a: "map_of mn k = Some a" and b: "map_of mx k = Some b"
    by (cases "map_of mn k"; cases "map_of mx k") (auto simp: map_of_None_keys)
  from Cons.prems have "keys counts \<subseteq> keys mn" "keys counts \<subseteq> keys mx"
    by (simp_all add: keys_def)
  from Cons.IH [OF this] a b show ?case by (auto simp: item)
qed

lemma init_result:
  assumes words: "list_all (lowercase_word wl) dictionary" and dist: "distinct dictionary"
  shows "\<exists>st. init wl dictionary = Inr st \<and> wf_solver st
    \<and> word_len st = wl \<and> words st = dictionary
    \<and> correct_letters st = replicate wl None
    \<and> misplaced_letters st = (\<lambda>letter. {})
    \<and> (\<forall>w \<in> set dictionary. \<forall>l \<in> set ascii_lowercase. within_bounds st w l)"
proof -
  from find_min_max_letter_repeats_result [of dictionary] obtain mn mx where
    stats: "find_min_max_letter_repeats dictionary = Inr (mn, mx)" and
    k: "map fst mn = ascii_lowercase" "map fst mx = ascii_lowercase" and
    cover: "\<And>l. l \<in> set ascii_lowercase \<Longrightarrow> \<exists>a b. map_of mn l = Some a \<and> map_of mx l = Some b
          \<and> (\<forall>w \<in> set dictionary. a \<le> int (count_list w l) \<and> int (count_list w l) \<le> b)"
    by blast
  have "set ascii_lowercase \<subseteq> keys mn" "set ascii_lowercase \<subseteq> keys mx"
    using k by (simp_all add: keys_map_fst)
  from init_letter_counts_result [OF this] obtain counts where
    counts: "init_letter_counts ascii_lowercase mn mx = Inr counts" and
    kc: "map fst counts = ascii_lowercase" and
    items: "\<forall>(l, (lo, hi)) \<in> set counts. map_of mn l = Some lo \<and> map_of mx l = Some hi"
    by blast
  let ?st = "\<lparr> word_len = wl, words = dictionary, correct_letters = replicate wl None,
               misplaced_letters = (\<lambda>letter. {}), letter_counts = counts \<rparr>"
  have run: "init wl dictionary = Inr ?st"
    using stats counts by (simp add: init_def)
  have wf: "wf_solver ?st"
    using words dist kc by (simp add: wf_solver_def)
  have "within_bounds ?st w l" if w: "w \<in> set dictionary" and l: "l \<in> set ascii_lowercase" for w l
  proof -
    from l kc have "l \<in> keys counts" by (simp add: keys_map_fst)
    then obtain lo hi where look: "map_of counts l = Some (lo, hi)"
      by (cases "map_of counts l") (auto simp: map_of_None_keys)
    then have "(l, (lo, hi)) \<in> set counts" by (rule map_of_SomeD)
    with items have "map_of mn l = Some lo" "map_of mx l = Some hi" by auto
    with cover [OF l] w have "lo \<le> int (count_list w l) \<and> int (count_list w l) \<le> hi" by auto
    with look show ?thesis by (simp add: within_bounds_def)
  qed
  with run wf show ?thesis by (intro exI [of _ ?st]) simp
qed

lemma tighten_letter_counts_result:
  assumes wf: "wf_solver st"
  shows "\<exists>st'. tighten_letter_counts st = Inr st' \<and> wf_solver st'
    \<and> st' = st\<lparr>letter_counts := letter_counts st'\<rparr>
    \<and> (\<forall>w \<in> set (words st). \<forall>l. within_bounds st w l \<longrightarrow> within_bounds st' w l)"
proof -
  from find_min_max_letter_repeats_result [of "words st"] obtain mn mx where
    stats: "find_min_max_letter_repeats (words st) = Inr (mn, mx)" and
    k: "map fst mn = ascii_lowercase" "map fst mx = ascii_lowercase" and
    cover: "\<And>l. l \<in> set ascii_lowercase \<Longrightarrow> \<exists>a b. map_of mn l = Some a \<and> map_of mx l = Some b
          \<and> (\<forall>w \<in> set (words st). a \<le> int (count_list w l) \<and> int (count_list w l) \<le> b)"
    by blast
  have "keys (letter_counts st) \<subseteq> keys mn" "keys (letter_counts st) \<subseteq> keys mx"
    using k wf_keys [OF wf] by (simp_all add: keys_map_fst)
  from tighten_counts_succeeds [OF this] obtain counts where
    t: "tighten_counts mn mx (letter_counts st) = Inr counts" by blast
  let ?st' = "st\<lparr>letter_counts := counts\<rparr>"
  have run: "tighten_letter_counts st = Inr ?st'"
    using stats t by (simp add: tighten_letter_counts_def)
  have wf': "wf_solver ?st'"
    using wf tighten_counts_keys [OF t] by (simp add: wf_solver_def)
  have "within_bounds ?st' w l" if w: "w \<in> set (words st)" and old: "within_bounds st w l" for w l
  proof -
    from old obtain lo hi where look: "map_of (letter_counts st) l = Some (lo, hi)"
      and in_old: "lo \<le> int (count_list w l)" "int (count_list w l) \<le> hi"
      by (auto simp: within_bounds_def split: option.splits)
    from tighten_counts_map_of [OF t look] obtain a b where
      ab: "map_of mn l = Some a" "map_of mx l = Some b"
        "map_of counts l = Some (max lo a, min hi b)"
      by blast
    from look have "l \<in> keys (letter_counts st)"
      using map_of_None_keys [of "letter_counts st" l] by simp
    then have "l \<in> set ascii_lowercase" using wf_keys [OF wf] by simp
    from cover [OF this] ab w have "a \<le> int (count_list w l)" "int (count_list w l) \<le> b"
      by auto
    with ab(3) in_old show ?thesis by (simp add: within_bounds_def)
  qed
  with run wf' show ?thesis by (intro exI [of _ ?st']) simp
qed

section \<open>The judge's feedback is fair\<close>

lemma length_mark_others [simp]: "length (mark_others ps pool) = length ps"
  by (induction ps pool rule: mark_others.induct) simp_all

lemma mark_others_nth:
  "i < length ps \<Longrightarrow>
    (mark_others ps pool ! i = CORRECT \<longleftrightarrow> fst (ps ! i) = snd (ps ! i))
    \<and> mark_others ps pool ! i \<noteq> UNKNOWN"
proof (induction ps pool arbitrary: i rule: mark_others.induct)
  case (1 pool)
  then show ?case by simp
next
  case (2 g a rest pool)
  then show ?case by (cases i) auto
qed

lemma count_list_remove1:
  "x \<in> set xs \<Longrightarrow> int (count_list (remove1 x xs) l) = int (count_list xs l) - (if l = x then 1 else 0)"
  by (induction xs) auto

lemma mark_others_counts:
  "correctish_count (zip (map fst ps) (mark_others ps pool)) l
     + incorrect_count (zip (map fst ps) (mark_others ps pool)) l
     = int (count_list (map fst ps) l)
   \<and> correctish_count (zip (map fst ps) (mark_others ps pool)) l
       \<le> greens ps l + int (count_list pool l)
   \<and> (incorrect_count (zip (map fst ps) (mark_others ps pool)) l \<noteq> 0 \<longrightarrow>
        greens ps l + int (count_list pool l)
          \<le> correctish_count (zip (map fst ps) (mark_others ps pool)) l)
   \<and> greens ps l \<le> correctish_count (zip (map fst ps) (mark_others ps pool)) l"
proof (induction ps pool rule: mark_others.induct)
  case (1 pool)
  show ?case by (simp add: correctish_count_def incorrect_count_def greens_def)
next
  case (2 g a rest pool)
  have nonneg: "0 \<le> correctish_count xs l" for xs by (simp add: correctish_count_def)
  show ?case
  proof (cases "g = a")
    case True
    with 2(1) show ?thesis
      by (auto simp: correctish_count_def incorrect_count_def greens_def)
  next
    case False
    show ?thesis
    proof (cases "g \<in> set pool")
      case True
      with False 2(2) count_list_remove1 [OF True, of l] show ?thesis
        by (auto simp: correctish_count_def incorrect_count_def greens_def)
    next
      case notin: False
      then have "count_list pool g = 0" by simp
      with False notin 2(3) nonneg [of "zip (map fst rest) (mark_others rest pool)"]
      show ?thesis
        by (auto simp: correctish_count_def incorrect_count_def greens_def)
    qed
  qed
qed

lemma greens_plus_pool:
  "greens ps l + int (count_list (map snd (filter (\<lambda>(g, a). g \<noteq> a) ps)) l)
    = int (count_list (map snd ps) l)"
  by (induction ps) (auto simp: greens_def)

lemma judge_fair:
  assumes "length guess = length answer"
  shows "fair_feedback answer guess (judge answer guess)"
proof -
  let ?ps = "zip guess answer"
  let ?pool = "map snd (filter (\<lambda>(g, a). g \<noteq> a) ?ps)"
  have j: "judge answer guess = mark_others ?ps ?pool" by (simp add: judge_def Let_def)
  have fs: "map fst ?ps = guess" "map snd ?ps = answer" using assms by simp_all
  have len: "length (judge answer guess) = length guess" using assms by (simp add: j)
  have pos: "(judge answer guess ! i = CORRECT \<longrightarrow> guess ! i = answer ! i)
      \<and> (judge answer guess ! i = INCORRECT \<or> judge answer guess ! i = MISPLACED
           \<longrightarrow> guess ! i \<noteq> answer ! i)" if "i < length guess" for i
  proof -
    from that assms have "i < length ?ps" by simp
    from mark_others_nth [OF this, of ?pool] that assms show ?thesis
      by (auto simp: j)
  qed
  have cnt: "correctish_count (zip guess (judge answer guess)) l \<le> int (count_list answer l)
      \<and> (incorrect_count (zip guess (judge answer guess)) l \<noteq> 0 \<longrightarrow>
           int (count_list answer l)
             \<le> int (count_list guess l) - incorrect_count (zip guess (judge answer guess)) l)"
    for l
  proof -
    let ?C = "correctish_count (zip guess (judge answer guess)) l"
    let ?K = "incorrect_count (zip guess (judge answer guess)) l"
    let ?P = "int (count_list ?pool l)"
    have m: "?C + ?K = int (count_list guess l)
        \<and> ?C \<le> greens ?ps l + ?P
        \<and> (?K \<noteq> 0 \<longrightarrow> greens ?ps l + ?P \<le> ?C)
        \<and> greens ?ps l \<le> ?C"
      using mark_others_counts [of ?ps ?pool l] by (simp only: fs j [symmetric]) blast
    have g: "greens ?ps l + ?P = int (count_list answer l)"
      using greens_plus_pool [of ?ps l] by (simp only: fs)
    from m g have le: "?C \<le> int (count_list answer l)" by simp
    from m g have "?K \<noteq> 0
        \<Longrightarrow> int (count_list answer l) \<le> int (count_list guess l) - ?K"
      by auto
    with le show ?thesis by blast
  qed
  from len assms pos cnt show ?thesis
    unfolding fair_feedback_def by blast
qed

section \<open>Soundness: the true answer is never eliminated\<close>

lemma marked_elsewhere_Cons:
  "marked_elsewhere ((c, r) # pairs) offset i l \<longleftrightarrow>
     (i = offset \<and> c = l \<and> (r = INCORRECT \<or> r = MISPLACED))
     \<or> marked_elsewhere pairs (Suc offset) i l"
proof (cases "Suc offset \<le> i")
  case True
  then have "i - offset = Suc (i - Suc offset)" "offset \<le> i" "i \<noteq> offset" by simp_all
  with True show ?thesis by (simp add: marked_elsewhere_def)
next
  case False
  show ?thesis
  proof (cases "i = offset")
    case True
    then show ?thesis by (simp add: marked_elsewhere_def)
  next
    case ne: False
    with False have "\<not> offset \<le> i" by simp
    with False ne show ?thesis by (simp add: marked_elsewhere_def)
  qed
qed

lemma scan_feedback_misplaced:
  "scan_feedback offset pairs (cor, inc, st) = Inr (cor', inc', st')
    \<Longrightarrow> i \<in> misplaced_letters st' l
    \<Longrightarrow> i \<in> misplaced_letters st l \<or> marked_elsewhere pairs offset i l"
proof (induction pairs arbitrary: offset cor inc st)
  case Nil
  then show ?case by simp
next
  case (Cons p pairs)
  obtain c r where p: "p = (c, r)" by (cases p)
  show ?case
  proof (cases r)
    case CORRECT
    with Cons.prems p have
      rec: "scan_feedback (Suc offset) pairs
           (incr c cor, inc, st\<lparr>correct_letters := (correct_letters st)[offset := Some c]\<rparr>)
           = Inr (cor', inc', st')"
      by (auto split: if_splits)
    from Cons.IH [OF rec Cons.prems(2)] show ?thesis
      by (auto simp: p marked_elsewhere_Cons)
  next
    case UNKNOWN
    with Cons.prems p have rec: "scan_feedback (Suc offset) pairs (cor, inc, st) = Inr (cor', inc', st')"
      by simp
    from Cons.IH [OF rec Cons.prems(2)] show ?thesis
      by (auto simp: p marked_elsewhere_Cons)
  next
    case INCORRECT
    let ?st1 = "st\<lparr>misplaced_letters :=
                  (misplaced_letters st)(c := insert offset (misplaced_letters st c))\<rparr>"
    from INCORRECT Cons.prems p have
      rec: "scan_feedback (Suc offset) pairs (cor, incr c inc, ?st1) = Inr (cor', inc', st')"
      by simp
    from Cons.IH [OF rec Cons.prems(2)] show ?thesis
      by (auto simp: p INCORRECT marked_elsewhere_Cons split: if_splits)
  next
    case MISPLACED
    let ?st1 = "st\<lparr>misplaced_letters :=
                  (misplaced_letters st)(c := insert offset (misplaced_letters st c))\<rparr>"
    from MISPLACED Cons.prems p have
      rec: "scan_feedback (Suc offset) pairs (incr c cor, inc, ?st1) = Inr (cor', inc', st')"
      by simp
    from Cons.IH [OF rec Cons.prems(2)] show ?thesis
      by (auto simp: p MISPLACED marked_elsewhere_Cons split: if_splits)
  qed
qed

lemma process_feedback_misplaced:
  assumes run: "process_feedback st suggestion feedback = Inr st'"
    and i: "i \<in> misplaced_letters st' l"
  shows "i \<in> misplaced_letters st l
    \<or> (i < length suggestion \<and> i < length feedback \<and> suggestion ! i = l
        \<and> (feedback ! i = INCORRECT \<or> feedback ! i = MISPLACED))"
proof -
  let ?pairs = "zip suggestion feedback"
  from run obtain cor inc st1 counts1 counts2 where
    scan: "scan_feedback 0 ?pairs ([], [], st) = Inr (cor, inc, st1)" and
    st': "st' = st1\<lparr>letter_counts := counts2\<rparr>"
    by (auto simp: process_feedback_def split: sum.splits)
  from i st' have "i \<in> misplaced_letters st1 l" by simp
  from scan_feedback_misplaced [OF scan this] show ?thesis
    by (auto simp: marked_elsewhere_def)
qed

lemma wf_answer:
  "wf_solver st \<Longrightarrow> answer \<in> set (words st)
    \<Longrightarrow> length answer = length (correct_letters st) \<and> set answer \<subseteq> set ascii_lowercase"
  by (auto simp: wf_solver_def list_all_iff lowercase_word_def)

lemma consistent_spec_keeps:
  assumes "wf_solver st" and "consistent answer st"
  shows "spec_keeps st answer"
proof -
  from assms have a: "answer \<in> set (words st)" by (simp add: consistent_def)
  from wf_answer [OF assms(1) a] assms(2) show ?thesis
    unfolding spec_keeps_def consistent_def by auto
qed

lemma process_feedback_consistent:
  assumes wf: "wf_solver st" and cons: "consistent answer st"
    and fair: "fair_feedback answer guess feedback"
    and guess: "lowercase_word (word_len st) guess"
  shows "\<exists>st'. process_feedback st guess feedback = Inr st' \<and> wf_solver st' \<and> consistent answer st'"
proof -
  from cons have a: "answer \<in> set (words st)" by (simp add: consistent_def)
  note la = wf_answer [OF wf a]
  from fair have lens: "length feedback = length guess" "length guess = length answer"
    by (simp_all add: fair_feedback_def)
  have "min (length guess) (length feedback) \<le> length (correct_letters st)"
    using lens la by simp
  moreover have "set guess \<subseteq> keys (letter_counts st)"
    using guess wf_keys [OF wf] by (simp add: lowercase_word_def)
  ultimately obtain st' where run: "process_feedback st guess feedback = Inr st'"
    using process_feedback_succeeds by blast
  note frame = process_feedback_frame [OF run]
  have wf': "wf_solver st'" using wf frame by (simp add: wf_solver_def)
  have c1: "answer ! i = c" if i: "i < length answer" and set: "correct_letters st' ! i = Some c" for i c
  proof -
    from i la have "i < length (correct_letters st)" by simp
    from process_feedback_correct_letters [OF run this] set
    have "(marked_correct (guess, feedback) i \<and> c = guess ! i)
        \<or> correct_letters st ! i = Some c"
      by (auto split: if_splits)
    then show ?thesis
    proof
      assume "marked_correct (guess, feedback) i \<and> c = guess ! i"
      with fair show ?thesis by (auto simp: fair_feedback_def marked_correct_def)
    next
      assume "correct_letters st ! i = Some c"
      with cons i show ?thesis by (simp add: consistent_def)
    qed
  qed
  have c2: "i \<notin> misplaced_letters st' (answer ! i)" if i: "i < length answer" for i
  proof
    assume "i \<in> misplaced_letters st' (answer ! i)"
    from process_feedback_misplaced [OF run this]
    show False
    proof
      assume "i \<in> misplaced_letters st (answer ! i)"
      with cons i show False by (simp add: consistent_def)
    next
      assume "i < length guess \<and> i < length feedback \<and> guess ! i = answer ! i
        \<and> (feedback ! i = INCORRECT \<or> feedback ! i = MISPLACED)"
      with fair show False by (auto simp: fair_feedback_def)
    qed
  qed
  have c3: "within_bounds st' answer l" if l: "l \<in> set ascii_lowercase" for l
  proof -
    from cons l have "within_bounds st answer l" by (simp add: consistent_def)
    then obtain lo hi where look: "map_of (letter_counts st) l = Some (lo, hi)"
      and old: "lo \<le> int (count_list answer l)" "int (count_list answer l) \<le> hi"
      by (auto simp: within_bounds_def split: option.splits)
    from fair have "correctish_count (zip guess feedback) l \<le> int (count_list answer l)"
      and "incorrect_count (zip guess feedback) l \<noteq> 0 \<Longrightarrow>
           int (count_list answer l)
             \<le> int (count_list guess l) - incorrect_count (zip guess feedback) l"
      by (simp_all add: fair_feedback_def)
    with process_feedback_counts [OF run look] old show ?thesis
      by (simp add: within_bounds_def)
  qed
  have "consistent answer st'"
    unfolding consistent_def using a frame c1 c2 c3 by simp
  with run wf' show ?thesis by blast
qed

lemma process_feedback_wf:
  "wf_solver st \<Longrightarrow> process_feedback st suggestion feedback = Inr st' \<Longrightarrow> wf_solver st'"
  using process_feedback_frame [of st suggestion feedback st'] by (simp add: wf_solver_def)

lemma filter_words_wf:
  assumes wf: "wf_solver st" and run: "filter_words st = Inr st'"
  shows "wf_solver st'"
proof -
  from run obtain new_words where loop: "filter_loop st (words st) [] = Inr new_words"
    and nw: "st' = st\<lparr>words := new_words\<rparr>"
    by (auto simp: filter_words_def split: sum.splits)
  have "distinct new_words" using filter_loop_distinct [OF loop] by simp
  moreover have "set new_words \<subseteq> set (words st)" using filter_loop_set [OF loop] by auto
  ultimately show ?thesis using wf nw by (auto simp: wf_solver_def list_all_iff)
qed

lemma filter_words_consistent:
  assumes wf: "wf_solver st" and cons: "consistent answer st"
  shows "\<exists>st'. filter_words st = Inr st' \<and> wf_solver st' \<and> consistent answer st'"
proof -
  have each: "rejects st w = Inr (\<not> spec_keeps st w)" if "w \<in> set (words st)" for w
    using rejects_wf [OF wf] that wf by (simp add: wf_solver_def list_all_iff)
  then have "\<forall>w \<in> set (words st). \<exists>b. rejects st w = Inr b" by blast
  from filter_loop_succeeds [OF this] obtain new_words where
    loop: "filter_loop st (words st) [] = Inr new_words" by blast
  let ?st' = "st\<lparr>words := new_words\<rparr>"
  have run: "filter_words st = Inr ?st'" using loop by (simp add: filter_words_def)
  have kept: "set new_words = {w \<in> set (words st). spec_keeps st w}"
    using filter_loop_set [OF loop] each by auto
  have wf': "wf_solver ?st'" using filter_words_wf [OF wf run] .
  have "answer \<in> set new_words"
    using kept cons consistent_spec_keeps [OF wf cons] by (simp add: consistent_def)
  with cons have "consistent answer ?st'"
    by (simp add: consistent_def within_bounds_def)
  with run wf' show ?thesis by blast
qed

lemma tighten_letter_counts_consistent:
  assumes wf: "wf_solver st" and cons: "consistent answer st"
  shows "\<exists>st'. tighten_letter_counts st = Inr st' \<and> wf_solver st' \<and> consistent answer st'"
proof -
  from tighten_letter_counts_result [OF wf] obtain st' where
    run: "tighten_letter_counts st = Inr st'" and wf': "wf_solver st'" and
    st': "st' = st\<lparr>letter_counts := letter_counts st'\<rparr>" and
    keep: "\<And>w l. w \<in> set (words st) \<Longrightarrow> within_bounds st w l \<Longrightarrow> within_bounds st' w l"
    by blast
  have same: "words st' = words st" "correct_letters st' = correct_letters st"
    "misplaced_letters st' = misplaced_letters st"
    by (subst st', simp)+
  from cons keep same have "consistent answer st'"
    by (simp add: consistent_def)
  with run wf' show ?thesis by blast
qed

lemma accept_feedback_consistent:
  assumes wf: "wf_solver st" and cons: "consistent answer st"
    and fair: "fair_feedback answer guess feedback"
    and guess: "lowercase_word (word_len st) guess"
  shows "\<exists>st'. accept_feedback st guess feedback = Inr st' \<and> wf_solver st'
    \<and> word_len st' = word_len st \<and> consistent answer st'"
proof -
  from process_feedback_consistent [OF wf cons fair guess] obtain st1 where
    p: "process_feedback st guess feedback = Inr st1" "wf_solver st1" "consistent answer st1"
    by blast
  from filter_words_consistent [OF p(2,3)] obtain st2 where
    f: "filter_words st1 = Inr st2" "wf_solver st2" "consistent answer st2"
    by blast
  from tighten_letter_counts_consistent [OF f(2,3)] obtain st3 where
    t: "tighten_letter_counts st2 = Inr st3" "wf_solver st3" "consistent answer st3"
    by blast
  have "accept_feedback st guess feedback = Inr st3"
    using p(1) f(1) t(1) by (simp add: accept_feedback_def)
  moreover have "word_len st3 = word_len st"
    using process_feedback_frame [OF p(1)] f(1) t(1)
    by (auto simp: filter_words_def tighten_letter_counts_def split: sum.splits)
  ultimately show ?thesis using t by blast
qed

lemma accept_feedback_words:
  assumes "accept_feedback st guess feedback = Inr st'"
  shows "\<exists>st1 st2. process_feedback st guess feedback = Inr st1
    \<and> filter_words st1 = Inr st2 \<and> words st' = words st2"
  using assms
  by (auto simp: accept_feedback_def tighten_letter_counts_def split: sum.splits)

lemma play_consistent:
  assumes "wf_solver st" and "consistent answer st"
    and "list_all (lowercase_word (word_len st)) guesses"
  shows "\<exists>st'. play answer st guesses = Inr st' \<and> wf_solver st' \<and> consistent answer st'"
  using assms
proof (induction guesses arbitrary: st)
  case Nil
  then show ?case by simp
next
  case (Cons guess guesses)
  from Cons.prems(3) have g: "lowercase_word (word_len st) guess"
    and gs: "list_all (lowercase_word (word_len st)) guesses" by simp_all
  from Cons.prems(1,2) have "answer \<in> set (words st)" by (simp add: consistent_def)
  with Cons.prems(1) g have "length guess = length answer"
    by (auto simp: wf_solver_def list_all_iff lowercase_word_def)
  then have fair: "fair_feedback answer guess (judge answer guess)" by (rule judge_fair)
  from accept_feedback_consistent [OF Cons.prems(1,2) fair g] obtain st1 where
    step: "accept_feedback st guess (judge answer guess) = Inr st1" and
    st1: "wf_solver st1" "word_len st1 = word_len st" "consistent answer st1"
    by blast
  from gs st1(2) have "list_all (lowercase_word (word_len st1)) guesses" by simp
  from Cons.IH [OF st1(1,3) this] step show ?case by simp
qed

text \<open>
  Claim C1. Let the dictionary be a set of Words of the solver's length that holds the
  true answer, and let the guesses be Words of that length. Then \<open>init\<close> returns a
  solver, and after every number of rounds, each with the feedback the judge gives for
  the guess against the true answer, the round has returned and the true answer is among
  the candidates: \<open>process_feedback\<close> followed by \<open>filter_words\<close> never eliminates it.
\<close>

theorem answer_survives:
  assumes dictionary: "list_all (lowercase_word wl) dictionary" "distinct dictionary"
    and answer: "answer \<in> set dictionary"
    and guesses: "list_all (lowercase_word wl) guesses"
  shows "\<exists>st0. init wl dictionary = Inr st0
    \<and> (\<forall>n. \<exists>st. play answer st0 (take n guesses) = Inr st \<and> answer \<in> set (words st))"
proof -
  from init_result [OF dictionary] obtain st0 where
    i: "init wl dictionary = Inr st0" and wf: "wf_solver st0" and
    wl: "word_len st0 = wl" and ws: "words st0 = dictionary" and
    cl: "correct_letters st0 = replicate wl None" and
    ml: "misplaced_letters st0 = (\<lambda>letter. {})" and
    b: "\<forall>w \<in> set dictionary. \<forall>l \<in> set ascii_lowercase. within_bounds st0 w l"
    by blast
  from dictionary(1) answer have la: "length answer = wl"
    by (auto simp: list_all_iff lowercase_word_def)
  have cons: "consistent answer st0"
    unfolding consistent_def using answer ws cl ml b la by simp
  have "\<exists>st. play answer st0 (take n guesses) = Inr st \<and> answer \<in> set (words st)" for n
  proof -
    have "list_all (lowercase_word (word_len st0)) (take n guesses)"
      using guesses wl by (auto simp: list_all_iff dest: in_set_takeD)
    from play_consistent [OF wf cons this] show ?thesis
      by (auto simp: consistent_def)
  qed
  with i show ?thesis by blast
qed

theorem answer_survives_witness:
  "list_all (lowercase_word 5) [''crane'', ''slate'', ''trace'', ''thane'']
    \<and> distinct [''crane'', ''slate'', ''trace'', ''thane'']
    \<and> ''trace'' \<in> set [''crane'', ''slate'', ''trace'', ''thane'']
    \<and> list_all (lowercase_word 5) [''slate'', ''crane'']
    \<and> (\<exists>st0 st. init 5 [''crane'', ''slate'', ''trace'', ''thane''] = Inr st0
          \<and> play ''trace'' st0 [''slate''] = Inr st
          \<and> ''trace'' \<in> set (words st)
          \<and> words st = [''trace'', ''thane''])
    \<and> (\<exists>st0 st. init 5 [''crane'', ''slate'', ''trace'', ''thane''] = Inr st0
          \<and> play ''trace'' st0 [''slate'', ''crane''] = Inr st
          \<and> ''trace'' \<in> set (words st)
          \<and> words st = [''trace''])"
proof -
  let ?dictionary = "[''crane'', ''slate'', ''trace'', ''thane'']"
  let ?guesses = "[''slate'', ''crane'']"
  have h1: "list_all (lowercase_word 5) ?dictionary" by code_simp
  have h2: "distinct ?dictionary" by code_simp
  have h3: "''trace'' \<in> set ?dictionary" by simp
  have h4: "list_all (lowercase_word 5) ?guesses" by code_simp
  have e1: "(case init 5 ?dictionary of
              Inl e \<Rightarrow> Inl e
            | Inr st0 \<Rightarrow> map_sum id words (play ''trace'' st0 (take 1 ?guesses)))
           = Inr [''trace'', ''thane'']"
    by code_simp
  have e2: "(case init 5 ?dictionary of
              Inl e \<Rightarrow> Inl e
            | Inr st0 \<Rightarrow> map_sum id words (play ''trace'' st0 (take 2 ?guesses)))
           = Inr [''trace'']"
    by code_simp
  from answer_survives [OF h1 h2 h3 h4] obtain st0 where
    i: "init 5 ?dictionary = Inr st0" and
    all: "\<And>n. \<exists>st. play ''trace'' st0 (take n ?guesses) = Inr st \<and> ''trace'' \<in> set (words st)"
    by blast
  from all [of 1] obtain st1 where
    p1: "play ''trace'' st0 (take 1 ?guesses) = Inr st1" "''trace'' \<in> set (words st1)"
    by blast
  from all [of 2] obtain st2 where
    p2: "play ''trace'' st0 (take 2 ?guesses) = Inr st2" "''trace'' \<in> set (words st2)"
    by blast
  from e1 i p1(1) have w1: "words st1 = [''trace'', ''thane'']" by simp
  from e2 i p2(1) have w2: "words st2 = [''trace'']" by simp
  have t1: "take 1 ?guesses = [''slate'']" and t2: "take 2 ?guesses = ?guesses" by simp_all
  have a: "\<exists>st0 st. init 5 ?dictionary = Inr st0 \<and> play ''trace'' st0 [''slate''] = Inr st
      \<and> ''trace'' \<in> set (words st) \<and> words st = [''trace'', ''thane'']"
    using i p1 w1 unfolding t1 by blast
  have b: "\<exists>st0 st. init 5 ?dictionary = Inr st0 \<and> play ''trace'' st0 ?guesses = Inr st
      \<and> ''trace'' \<in> set (words st) \<and> words st = [''trace'']"
    using i p2 w2 unfolding t2 by blast
  show ?thesis by (intro conjI h1 h2 h3 h4 a b)
qed

section \<open>The ends of the solve loop\<close>

text \<open>
  On candidates of one length \<open>find_suggestions\<close> cannot raise, and it offers ten
  suggestions, or as many as there are candidates when those are fewer.
\<close>

lemma count_letters_ok:
  "position + length w \<le> length counts
    \<Longrightarrow> \<exists>counts'. count_letters position w counts = Inr counts' \<and> length counts' = length counts"
proof (induction w arbitrary: position counts)
  case Nil
  then show ?case by simp
next
  case (Cons letter w)
  let ?counts1 = "counts[position := (counts ! position)(letter := (counts ! position) letter + 1)]"
  from Cons.prems have "Suc position + length w \<le> length ?counts1" by simp
  from Cons.IH [OF this] Cons.prems show ?case by simp
qed

lemma count_words_ok:
  "\<forall>w \<in> set ws. length w \<le> length counts
    \<Longrightarrow> \<exists>counts'. count_words ws counts = Inr counts' \<and> length counts' = length counts"
proof (induction ws arbitrary: counts)
  case Nil
  then show ?case by simp
next
  case (Cons w ws)
  from Cons.prems have "0 + length w \<le> length counts" by simp
  from count_letters_ok [OF this] obtain counts1 where
    one: "count_letters 0 w counts = Inr counts1" "length counts1 = length counts" by blast
  with Cons.prems have "\<forall>w \<in> set ws. length w \<le> length counts1" by simp
  from Cons.IH [OF this] one show ?case by simp
qed

lemma word_score_ok:
  "position + length w \<le> length counts \<Longrightarrow> \<exists>score. word_score position w counts = Inr score"
proof (induction w arbitrary: position)
  case Nil
  then show ?case by simp
next
  case (Cons letter w)
  from Cons.prems have "Suc position + length w \<le> length counts" by simp
  from Cons.IH [OF this] Cons.prems show ?case by auto
qed

lemma score_words_ok:
  "\<forall>w \<in> set ws. length w \<le> length counts
    \<Longrightarrow> \<exists>scores. score_words ws counts = Inr scores \<and> map snd scores = ws"
proof (induction ws)
  case Nil
  then show ?case by simp
next
  case (Cons w ws)
  from Cons.prems have "0 + length w \<le> length counts" by simp
  from word_score_ok [OF this] obtain score where "word_score 0 w counts = Inr score" by blast
  moreover from Cons obtain scores where "score_words ws counts = Inr scores" "map snd scores = ws"
    by auto
  ultimately show ?case by simp
qed

lemma find_suggestions_ok:
  assumes ne: "ws \<noteq> []" and len: "\<forall>w \<in> set ws. length w = n" and d: "distinct ws"
  shows "\<exists>suggestions ws'. find_suggestions ws k = (Inr suggestions, ws')
    \<and> length suggestions = min k (length ws)
    \<and> set (map snd suggestions) \<subseteq> set ws
    \<and> set ws' = set ws \<and> distinct ws' \<and> length ws' = length ws"
proof -
  from ne obtain word rest where ws: "ws = word # rest" by (cases ws) auto
  let ?ws' = "set_add word rest"
  let ?counts = "replicate (length word) (\<lambda>letter :: char. 0 :: int)"
  from d ws have ws': "?ws' = rest @ [word]" by (simp add: set_add_def)
  then have s: "set ?ws' = set ws" and d': "distinct ?ws'" and l': "length ?ws' = length ws"
    using d ws by auto
  from len ws have "length word = n" by simp
  with len s have fit: "\<forall>w \<in> set ?ws'. length w \<le> length ?counts" by simp
  from count_words_ok [OF fit] obtain counts where
    c: "count_words ?ws' ?counts = Inr counts" "length counts = length ?counts" by blast
  from fit c(2) have "\<forall>w \<in> set ?ws'. length w \<le> length counts" by simp
  from score_words_ok [OF this] obtain scores where
    sc: "score_words ?ws' counts = Inr scores" "map snd scores = ?ws'" by blast
  let ?suggestions = "take k (rev (sort scores))"
  have run: "find_suggestions ws k = (Inr ?suggestions, ?ws')"
    using c(1) sc(1) by (simp add: find_suggestions_def letter_word_counts_def set_pop_def ws Let_def)
  have "length scores = length ws" using sc(2) l' by (metis length_map)
  then have n: "length ?suggestions = min k (length ws)" by (simp add: min.commute)
  have "set (map snd ?suggestions) \<subseteq> set (map snd scores)"
    by (auto dest!: in_set_takeD)
  with sc(2) s have sub: "set (map snd ?suggestions) \<subseteq> set ws" by simp
  from run n sub s d' l' show ?thesis by blast
qed

lemma input_guess_blank: "strip line = [] \<Longrightarrow> input_guess e (line # rest) = (Inl SkipWordError, rest)"
  by (simp add: Let_def)

lemma offer_suggestions_declined:
  "length declined = length suggestions \<Longrightarrow> \<forall>line \<in> set declined. strip line = []
    \<Longrightarrow> offer_suggestions wl suggestions (declined @ rest) = (Inr None, rest)"
proof (induction suggestions arbitrary: declined)
  case Nil
  then show ?case by simp
next
  case (Cons s suggestions)
  then obtain line lines where d: "declined = line # lines" by (cases declined) auto
  with Cons.prems have "strip line = []" "length lines = length suggestions"
    "\<forall>line \<in> set lines. strip line = []" by simp_all
  with Cons.IH [of lines] show ?case by (simp add: d Let_def)
qed

lemma run_until_solved_one: "words st = [w] \<Longrightarrow> run_until_solved st stdin = Inr (Some w)"
  by (simp add: run_until_solved.simps set_pop_def)

lemma run_until_solved_none: "words st = [] \<Longrightarrow> run_until_solved st stdin = Inr None"
  by (simp add: run_until_solved.simps)

lemma run_until_solved_round:
  assumes "1 < length (words st)"
    and "find_suggestions (words st) 10 = (Inr suggestions, ws)"
    and "offer_suggestions (word_len st) (map snd suggestions) stdin
          = (Inr (Some (suggestion, feedback)), stdin')"
    and "accept_feedback (st\<lparr>words := ws\<rparr>) suggestion feedback = Inr st'"
  shows "run_until_solved st stdin = run_until_solved st' stdin'"
  using assms by (subst run_until_solved.simps) simp

lemma run_until_solved_declined:
  assumes "1 < length (words st)"
    and "find_suggestions (words st) 10 = (Inr suggestions, ws)"
    and "offer_suggestions (word_len st) (map snd suggestions) stdin = (Inr None, stdin')"
  shows "run_until_solved st stdin = Inl NoSuggestionsAccepted"
  using assms by (subst run_until_solved.simps) simp

lemma find_suggestions_wf:
  assumes wf: "wf_solver st" and ne: "words st \<noteq> []"
  shows "\<exists>suggestions ws. find_suggestions (words st) k = (Inr suggestions, ws)
    \<and> length suggestions = min k (length (words st)) \<and> wf_solver (st\<lparr>words := ws\<rparr>)"
proof -
  from wf have len: "\<forall>w \<in> set (words st). length w = word_len st" and d: "distinct (words st)"
    by (auto simp: wf_solver_def list_all_iff lowercase_word_def)
  from find_suggestions_ok [OF ne len d, of k] obtain suggestions ws where
    r: "find_suggestions (words st) k = (Inr suggestions, ws)"
       "length suggestions = min k (length (words st))"
       "set ws = set (words st)" "distinct ws"
    by blast
  from wf r(3,4) have "wf_solver (st\<lparr>words := ws\<rparr>)"
    by (simp add: wf_solver_def list_all_iff)
  with r(1,2) show ?thesis by blast
qed

text \<open>
  Claim C8. The ends of \<open>run_until_solved\<close>. With exactly one candidate it returns that
  word; with none it returns \<open>None\<close>, the no-solution result, and raises nothing. The
  same holds inside the loop, on a solver that meets the data model: when an accepted
  round (\<open>process_feedback\<close>, then \<open>filter_words\<close>) leaves one candidate the function
  returns it, and when the round leaves none the tightening that follows does not raise
  and the function returns \<open>None\<close>. And when there are several candidates and the input
  declines every suggestion of the round (a blank line for each of them, however the
  input goes on) the function raises "No suggestions accepted".
\<close>

theorem run_until_solved_terminal:
  "(words st = [w] \<longrightarrow> run_until_solved st stdin = Inr (Some w))
   \<and> (words st = [] \<longrightarrow> run_until_solved st stdin = Inr None)
   \<and> (wf_solver st \<and> 1 < length (words st)
        \<and> find_suggestions (words st) 10 = (Inr suggestions, ws)
        \<and> offer_suggestions (word_len st) (map snd suggestions) stdin
            = (Inr (Some (suggestion, feedback)), stdin')
        \<and> process_feedback (st\<lparr>words := ws\<rparr>) suggestion feedback = Inr st1
        \<and> filter_words st1 = Inr st2
       \<longrightarrow> (words st2 = [w] \<longrightarrow> run_until_solved st stdin = Inr (Some w))
           \<and> (words st2 = [] \<longrightarrow> run_until_solved st stdin = Inr None))
   \<and> (wf_solver st \<and> 1 < length (words st)
        \<and> length declined = min 10 (length (words st))
        \<and> (\<forall>line \<in> set declined. strip line = [])
       \<longrightarrow> run_until_solved st (declined @ rest) = Inl NoSuggestionsAccepted)"
proof (intro conjI impI)
  assume "words st = [w]"
  then show "run_until_solved st stdin = Inr (Some w)" by (rule run_until_solved_one)
next
  assume "words st = []"
  then show "run_until_solved st stdin = Inr None" by (rule run_until_solved_none)
next
  assume h: "wf_solver st \<and> 1 < length (words st)
        \<and> find_suggestions (words st) 10 = (Inr suggestions, ws)
        \<and> offer_suggestions (word_len st) (map snd suggestions) stdin
            = (Inr (Some (suggestion, feedback)), stdin')
        \<and> process_feedback (st\<lparr>words := ws\<rparr>) suggestion feedback = Inr st1
        \<and> filter_words st1 = Inr st2"
  then have wf: "wf_solver st" and many: "1 < length (words st)"
    and sug: "find_suggestions (words st) 10 = (Inr suggestions, ws)"
    and off: "offer_suggestions (word_len st) (map snd suggestions) stdin
            = (Inr (Some (suggestion, feedback)), stdin')"
    and p: "process_feedback (st\<lparr>words := ws\<rparr>) suggestion feedback = Inr st1"
    and f: "filter_words st1 = Inr st2"
    by simp_all
  from many have "words st \<noteq> []" by auto
  from find_suggestions_wf [OF wf this, of 10] sug have "wf_solver (st\<lparr>words := ws\<rparr>)" by auto
  from filter_words_wf [OF process_feedback_wf [OF this p] f] have "wf_solver st2" .
  from tighten_letter_counts_result [OF this] obtain st3 where
    t: "tighten_letter_counts st2 = Inr st3" and st3: "st3 = st2\<lparr>letter_counts := letter_counts st3\<rparr>"
    by blast
  have w3: "words st3 = words st2" by (subst st3) simp
  have "accept_feedback (st\<lparr>words := ws\<rparr>) suggestion feedback = Inr st3"
    using p f t by (simp add: accept_feedback_def)
  from run_until_solved_round [OF many sug off this]
  have step: "run_until_solved st stdin = run_until_solved st3 stdin'" .
  {
    assume "words st2 = [w]"
    with w3 step show "run_until_solved st stdin = Inr (Some w)"
      by (simp add: run_until_solved_one)
  next
    assume "words st2 = []"
    with w3 step show "run_until_solved st stdin = Inr None"
      by (simp add: run_until_solved_none)
  }
next
  assume h: "wf_solver st \<and> 1 < length (words st)
        \<and> length declined = min 10 (length (words st))
        \<and> (\<forall>line \<in> set declined. strip line = [])"
  then have wf: "wf_solver st" and many: "1 < length (words st)"
    and n: "length declined = min 10 (length (words st))"
    and blank: "\<forall>line \<in> set declined. strip line = []"
    by simp_all
  from many have "words st \<noteq> []" by auto
  from find_suggestions_wf [OF wf this, of 10] obtain suggestions ws where
    sug: "find_suggestions (words st) 10 = (Inr suggestions, ws)"
    and len: "length suggestions = min 10 (length (words st))"
    by blast
  from n len have "length declined = length (map snd suggestions)" by simp
  from offer_suggestions_declined [OF this blank]
  have "offer_suggestions (word_len st) (map snd suggestions) (declined @ rest) = (Inr None, rest)" .
  from run_until_solved_declined [OF many sug this]
  show "run_until_solved st (declined @ rest) = Inl NoSuggestionsAccepted" .
qed

lemma three_word_solver_init: "init 2 [''ab'', ''cd'', ''ad''] = Inr three_word_solver"
  by code_simp

theorem run_until_solved_terminal_witness:
  "run_until_solved (three_word_solver\<lparr>words := [''cd'']\<rparr>) [] = Inr (Some ''cd'')
    \<and> run_until_solved (three_word_solver\<lparr>words := []\<rparr>) [] = Inr None
    \<and> wf_solver three_word_solver
    \<and> 1 < length (words three_word_solver)
    \<and> find_suggestions (words three_word_solver) 10
        = (Inr [(4, ''ad''), (3, ''cd''), (3, ''ab'')], [''cd'', ''ad'', ''ab''])
    \<and> offer_suggestions 2 [''ad'', ''cd'', ''ab''] [''x+'']
        = (Inr (Some (''ad'', [INCORRECT, CORRECT])), [])
    \<and> run_until_solved three_word_solver [''x+''] = Inr (Some ''cd'')
    \<and> offer_suggestions 2 [''ad'', ''cd'', ''ab''] [''xx'']
        = (Inr (Some (''ad'', [INCORRECT, INCORRECT])), [])
    \<and> run_until_solved three_word_solver [''xx''] = Inr None
    \<and> strip [] = [] \<and> strip ''  '' = [] \<and> strip [CHR 0xA0] = []
    \<and> run_until_solved three_word_solver [[], ''  '', [CHR 0xA0], ''++'']
        = Inl NoSuggestionsAccepted"
proof -
  let ?st = three_word_solver
  let ?sugs = "[(4, ''ad''), (3, ''cd''), (3, ''ab'')] :: (int \<times> string) list"
  let ?ws = "[''cd'', ''ad'', ''ab'']"
  have a: "run_until_solved (?st\<lparr>words := [''cd'']\<rparr>) [] = Inr (Some ''cd'')"
    using run_until_solved_terminal [where st = "?st\<lparr>words := [''cd'']\<rparr>" and w = "''cd''"
        and stdin = "[]"]
    by simp
  have b: "run_until_solved (?st\<lparr>words := []\<rparr>) [] = Inr None"
    using run_until_solved_terminal [where st = "?st\<lparr>words := []\<rparr>" and stdin = "[]"]
    by simp
  have wf: "wf_solver ?st" by code_simp
  have many: "1 < length (words ?st)" by code_simp
  have wl: "word_len ?st = 2" by code_simp
  have sug: "find_suggestions (words ?st) 10 = (Inr ?sugs, ?ws)" by code_simp
  have names: "map snd ?sugs = [''ad'', ''cd'', ''ab'']" by simp
  let ?p1 = "?st\<lparr>words := ?ws, correct_letters := [None, Some (CHR ''d'')],
       misplaced_letters := (\<lambda>letter. {})(CHR ''a'' := {0}),
       letter_counts := AList.update (CHR ''a'') (0, 0)
          (AList.update (CHR ''d'') (1, 1) (letter_counts ?st))\<rparr>"
  have o1: "offer_suggestions 2 [''ad'', ''cd'', ''ab''] [''x+'']
      = (Inr (Some (''ad'', [INCORRECT, CORRECT])), [])"
    by code_simp
  have p1: "process_feedback (?st\<lparr>words := ?ws\<rparr>) ''ad'' [INCORRECT, CORRECT] = Inr ?p1"
    by code_simp
  have f1: "filter_words ?p1 = Inr (?p1\<lparr>words := [''cd'']\<rparr>)" by code_simp
  let ?p2 = "?st\<lparr>words := ?ws,
       misplaced_letters := (\<lambda>letter. {})(CHR ''a'' := {0}, CHR ''d'' := {1}),
       letter_counts := AList.update (CHR ''d'') (0, 0)
          (AList.update (CHR ''a'') (0, 0) (letter_counts ?st))\<rparr>"
  have o2: "offer_suggestions 2 [''ad'', ''cd'', ''ab''] [''xx'']
      = (Inr (Some (''ad'', [INCORRECT, INCORRECT])), [])"
    by code_simp
  have p2: "process_feedback (?st\<lparr>words := ?ws\<rparr>) ''ad'' [INCORRECT, INCORRECT] = Inr ?p2"
    by code_simp
  have f2: "filter_words ?p2 = Inr (?p2\<lparr>words := []\<rparr>)" by code_simp
  have s1: "strip [] = []" by code_simp
  have s2: "strip ''  '' = []" by code_simp
  have s3: "strip [CHR 0xA0] = []" by code_simp
  have n: "length [[], ''  '', [CHR 0xA0]] = min 10 (length (words ?st))" by code_simp
  have o1': "offer_suggestions (word_len ?st) (map snd ?sugs) [''x+'']
      = (Inr (Some (''ad'', [INCORRECT, CORRECT])), [])"
    by code_simp
  have o2': "offer_suggestions (word_len ?st) (map snd ?sugs) [''xx'']
      = (Inr (Some (''ad'', [INCORRECT, INCORRECT])), [])"
    by code_simp
  have h1: "wf_solver ?st \<and> 1 < length (words ?st)
        \<and> find_suggestions (words ?st) 10 = (Inr ?sugs, ?ws)
        \<and> offer_suggestions (word_len ?st) (map snd ?sugs) [''x+'']
            = (Inr (Some (''ad'', [INCORRECT, CORRECT])), [])
        \<and> process_feedback (?st\<lparr>words := ?ws\<rparr>) ''ad'' [INCORRECT, CORRECT] = Inr ?p1
        \<and> filter_words ?p1 = Inr (?p1\<lparr>words := [''cd'']\<rparr>)"
    by (intro conjI wf many sug o1' p1 f1)
  have k1: "words (?p1\<lparr>words := [''cd'']\<rparr>) = [''cd'']" by simp
  have c: "run_until_solved ?st [''x+''] = Inr (Some ''cd'')"
    using run_until_solved_terminal [where st = ?st and stdin = "[''x+'']" and w = "''cd''"
        and suggestions = ?sugs and ws = ?ws and suggestion = "''ad''"
        and feedback = "[INCORRECT, CORRECT]" and stdin' = "[]"
        and ?st1.0 = ?p1 and ?st2.0 = "?p1\<lparr>words := [''cd'']\<rparr>",
        THEN conjunct2, THEN conjunct2, THEN conjunct1, THEN mp, OF h1,
        THEN conjunct1, THEN mp, OF k1] .
  have h2: "wf_solver ?st \<and> 1 < length (words ?st)
        \<and> find_suggestions (words ?st) 10 = (Inr ?sugs, ?ws)
        \<and> offer_suggestions (word_len ?st) (map snd ?sugs) [''xx'']
            = (Inr (Some (''ad'', [INCORRECT, INCORRECT])), [])
        \<and> process_feedback (?st\<lparr>words := ?ws\<rparr>) ''ad'' [INCORRECT, INCORRECT] = Inr ?p2
        \<and> filter_words ?p2 = Inr (?p2\<lparr>words := []\<rparr>)"
    by (intro conjI wf many sug o2' p2 f2)
  have k2: "words (?p2\<lparr>words := []\<rparr>) = []" by simp
  have d: "run_until_solved ?st [''xx''] = Inr None"
    using run_until_solved_terminal [where st = ?st and stdin = "[''xx'']"
        and suggestions = ?sugs and ws = ?ws and suggestion = "''ad''"
        and feedback = "[INCORRECT, INCORRECT]" and stdin' = "[]"
        and ?st1.0 = ?p2 and ?st2.0 = "?p2\<lparr>words := []\<rparr>",
        THEN conjunct2, THEN conjunct2, THEN conjunct1, THEN mp, OF h2,
        THEN conjunct2, THEN mp, OF k2] .
  have blank: "\<forall>line \<in> set [[], ''  '', [CHR 0xA0]]. strip line = []"
    using s1 s2 s3 by simp
  have h3: "wf_solver ?st \<and> 1 < length (words ?st)
        \<and> length [[], ''  '', [CHR 0xA0]] = min 10 (length (words ?st))
        \<and> (\<forall>line \<in> set [[], ''  '', [CHR 0xA0]]. strip line = [])"
    by (intro conjI wf many n blank)
  have "run_until_solved ?st ([[], ''  '', [CHR 0xA0]] @ [''++'']) = Inl NoSuggestionsAccepted"
    using run_until_solved_terminal [where st = ?st and declined = "[[], ''  '', [CHR 0xA0]]"
        and rest = "[''++'']",
        THEN conjunct2, THEN conjunct2, THEN conjunct2, THEN mp, OF h3] .
  then have e: "run_until_solved ?st [[], ''  '', [CHR 0xA0], ''++''] = Inl NoSuggestionsAccepted"
    by simp
  show ?thesis by (intro conjI a b wf many sug o1 c o2 d s1 s2 s3 e)
qed

section \<open>The states the solve loop reaches\<close>

text \<open>
  Every reachable state is settled: \<open>init\<close> builds a settled solver, reordering the
  candidates keeps it settled, and a round ends in a settled solver whatever its feedback
  was.
\<close>

lemma spec_keeps_words_update [simp]: "spec_keeps (st\<lparr>words := ws\<rparr>) w = spec_keeps st w"
  by (simp add: spec_keeps_def within_bounds_def)

lemma init_settled:
  assumes "list_all (lowercase_word wl) dictionary" and "distinct dictionary"
    and "init wl dictionary = Inr st"
  shows "settled st"
proof -
  from init_result [OF assms(1,2)] assms(3) have wf: "wf_solver st"
    and ws: "words st = dictionary"
    and cl: "correct_letters st = replicate wl None"
    and ml: "misplaced_letters st = (\<lambda>letter. {})"
    and b: "\<forall>w \<in> set dictionary. \<forall>l \<in> set ascii_lowercase. within_bounds st w l"
    by auto
  have "spec_keeps st w" if w: "w \<in> set (words st)" for w
  proof -
    from wf w have "set w \<subseteq> set ascii_lowercase"
      by (auto simp: wf_solver_def list_all_iff lowercase_word_def)
    with b w ws cl ml show ?thesis by (auto simp: spec_keeps_def)
  qed
  with wf show ?thesis by (simp add: settled_def list_all_iff)
qed

lemma find_suggestions_set:
  "find_suggestions ws n = (r, ws') \<Longrightarrow> set ws' = set ws \<and> (distinct ws \<longrightarrow> distinct ws')"
proof -
  assume "find_suggestions ws n = (r, ws')"
  then have "ws' = snd (letter_word_counts ws)"
    using find_suggestions_words [of ws n] by simp
  then show ?thesis
    by (cases ws) (auto simp: letter_word_counts_words)
qed

lemma suggest_settled:
  assumes "settled st" and "find_suggestions (words st) n = (r, ws)"
  shows "settled (st\<lparr>words := ws\<rparr>)"
  using assms(1) find_suggestions_set [OF assms(2)]
  by (simp add: settled_def wf_solver_def list_all_iff)

lemma accept_feedback_settled:
  assumes wf: "wf_solver st" and run: "accept_feedback st guess feedback = Inr st'"
  shows "settled st'"
proof -
  from run obtain st1 st2 where
    p: "process_feedback st guess feedback = Inr st1" and
    f: "filter_words st1 = Inr st2" and
    t: "tighten_letter_counts st2 = Inr st'"
    by (auto simp: accept_feedback_def split: sum.splits)
  have wf1: "wf_solver st1" using process_feedback_wf [OF wf p] .
  have wf2: "wf_solver st2" using filter_words_wf [OF wf1 f] .
  from f obtain new_words where loop: "filter_loop st1 (words st1) [] = Inr new_words"
    and st2: "st2 = st1\<lparr>words := new_words\<rparr>"
    by (auto simp: filter_words_def split: sum.splits)
  have kept: "spec_keeps st2 w" if "w \<in> set (words st2)" for w
  proof -
    from that st2 filter_loop_set [OF loop] have w: "w \<in> set (words st1)"
      and r: "rejects st1 w = Inr False" by auto
    from wf1 w have "lowercase_word (word_len st1) w"
      by (simp add: wf_solver_def list_all_iff)
    from rejects_wf [OF wf1 this] r show ?thesis by (simp add: st2)
  qed
  from tighten_letter_counts_result [OF wf2] t have wf': "wf_solver st'"
    and st': "st' = st2\<lparr>letter_counts := letter_counts st'\<rparr>"
    and keep: "\<forall>w \<in> set (words st2). \<forall>l. within_bounds st2 w l \<longrightarrow> within_bounds st' w l"
    by auto
  have same: "words st' = words st2" "correct_letters st' = correct_letters st2"
    "misplaced_letters st' = misplaced_letters st2"
    by (subst st', simp)+
  have "spec_keeps st' w" if w: "w \<in> set (words st')" for w
    using kept [of w] w keep same by (auto simp: spec_keeps_def)
  with wf' show ?thesis by (simp add: settled_def list_all_iff)
qed

lemma reachable_settled: "reachable st \<Longrightarrow> settled st"
proof (induction rule: reachable.induct)
  case (start wl dictionary st)
  then show ?case by (rule init_settled)
next
  case (suggest st n r ws)
  then show ?case by (auto intro: suggest_settled)
next
  case (round st guess feedback st')
  from round.IH have "wf_solver st" by (simp add: settled_def)
  from accept_feedback_settled [OF this round.hyps(3)] show ?case .
qed

lemma reachable_reaches: "reaches st st' \<Longrightarrow> reachable st \<Longrightarrow> reachable st'"
  by (induction rule: reaches.induct) (auto intro: reachable.suggest reachable.round)

lemma accept_feedback_correct_letters:
  assumes "accept_feedback st guess feedback = Inr st'"
  shows "\<exists>st1. process_feedback st guess feedback = Inr st1
    \<and> correct_letters st' = correct_letters st1"
  using assms
  by (auto simp: accept_feedback_def filter_words_def tighten_letter_counts_def
      split: sum.splits)

lemma candidate_keeps_fixed_letter:
  assumes s: "settled st" and g: "guess \<in> set (words st)"
    and i: "i < length (correct_letters st)" and c: "correct_letters st ! i = Some c"
    and run: "process_feedback st guess feedback = Inr st'"
  shows "correct_letters st' ! i = Some c"
proof -
  from s g have "spec_keeps st guess" by (simp add: settled_def list_all_iff)
  with i c have "guess ! i = c" by (simp add: spec_keeps_def)
  with process_feedback_stays_set [OF run i c] show ?thesis by simp
qed

lemma reaches_fixed_letter:
  assumes "reaches st st'" and "reachable st"
    and "i < length (correct_letters st)" and "correct_letters st ! i = Some c"
  shows "i < length (correct_letters st') \<and> correct_letters st' ! i = Some c"
  using assms
proof (induction rule: reaches.induct)
  case (here st)
  then show ?case by simp
next
  case (suggest st st1 n r ws)
  then show ?case by simp
next
  case (round st st1 guess feedback st2)
  then have ih: "i < length (correct_letters st1)" "correct_letters st1 ! i = Some c" by simp_all
  have s1: "settled st1"
    using reachable_settled [OF reachable_reaches [OF round.hyps(1) round.prems(1)]] .
  from accept_feedback_correct_letters [OF round.hyps(3)] obtain st1' where
    p: "process_feedback st1 guess feedback = Inr st1'" and
    eq: "correct_letters st2 = correct_letters st1'"
    by blast
  from candidate_keeps_fixed_letter [OF s1 round.hyps(2) ih p] process_feedback_frame [OF p] ih(1) eq
  show ?case by simp
qed

text \<open>
  Claim C6. Let a call of \<open>process_feedback\<close> in a round of the solve loop leave
  \<open>correct_letters\<close> set to the letter \<open>c\<close> at position \<open>i\<close>. Then the position holds \<open>c\<close>
  when the round has ended and in every state the loop reaches afterwards, whatever the
  feedbacks of the later rounds are, and every later call of \<open>process_feedback\<close> leaves
  \<open>c\<close> there: the position is never unset and never takes another letter. The guesses
  are candidates, as the suggestions of the loop are; after the filter every candidate
  carries the fixed letters, so a later Correct mark can only confirm them.
\<close>

theorem fixed_letter_stays:
  assumes st: "reachable st" and guess: "guess \<in> set (words st)"
    and call: "process_feedback st guess feedback = Inr st1"
    and i: "i < length (correct_letters st1)" and c: "correct_letters st1 ! i = Some c"
    and round: "accept_feedback st guess feedback = Inr st2"
    and later: "reaches st2 st3"
  shows "correct_letters st3 ! i = Some c
    \<and> (\<forall>guess' feedback' st4.
          guess' \<in> set (words st3) \<and> process_feedback st3 guess' feedback' = Inr st4
          \<longrightarrow> correct_letters st4 ! i = Some c)"
proof -
  from accept_feedback_correct_letters [OF round] call
  have eq: "correct_letters st2 = correct_letters st1" by simp
  have r2: "reachable st2" using st guess round by (rule reachable.round)
  from reaches_fixed_letter [OF later r2] i c eq
  have i3: "i < length (correct_letters st3)" and c3: "correct_letters st3 ! i = Some c"
    by simp_all
  have s3: "settled st3" using reachable_settled [OF reachable_reaches [OF later r2]] .
  have "correct_letters st4 ! i = Some c"
    if "guess' \<in> set (words st3)" and "process_feedback st3 guess' feedback' = Inr st4"
    for guess' feedback' st4
    using candidate_keeps_fixed_letter [OF s3 that(1) i3 c3 that(2)] .
  with c3 show ?thesis by blast
qed

theorem fixed_letter_stays_witness:
  "reachable three_word_solver
    \<and> ''ad'' \<in> set (words three_word_solver)
    \<and> process_feedback three_word_solver ''ad'' [INCORRECT, CORRECT]
        = Inr (three_word_solver
                \<lparr>correct_letters := [None, Some (CHR ''d'')],
                 misplaced_letters := (\<lambda>letter. {})(CHR ''a'' := {0}),
                 letter_counts := AList.update (CHR ''a'') (0, 0)
                    (AList.update (CHR ''d'') (1, 1) (letter_counts three_word_solver))\<rparr>)
    \<and> accept_feedback three_word_solver ''ad'' [INCORRECT, CORRECT]
        = Inr (three_word_solver
                \<lparr>words := [''cd''],
                 correct_letters := [None, Some (CHR ''d'')],
                 misplaced_letters := (\<lambda>letter. {})(CHR ''a'' := {0}),
                 letter_counts :=
                   map (\<lambda>letter. (letter, if letter \<in> set ''cd'' then (1, 1) else (0, 0)))
                     ascii_lowercase\<rparr>)
    \<and> process_feedback
          (three_word_solver
                \<lparr>words := [''cd''],
                 correct_letters := [None, Some (CHR ''d'')],
                 misplaced_letters := (\<lambda>letter. {})(CHR ''a'' := {0}),
                 letter_counts :=
                   map (\<lambda>letter. (letter, if letter \<in> set ''cd'' then (1, 1) else (0, 0)))
                     ascii_lowercase\<rparr>)
          ''cd'' [CORRECT, CORRECT]
        = Inr (three_word_solver
                \<lparr>words := [''cd''],
                 correct_letters := [Some (CHR ''c''), Some (CHR ''d'')],
                 misplaced_letters := (\<lambda>letter. {})(CHR ''a'' := {0}),
                 letter_counts :=
                   map (\<lambda>letter. (letter, if letter \<in> set ''cd'' then (1, 1) else (0, 0)))
                     ascii_lowercase\<rparr>)
    \<and> correct_letters (three_word_solver
                \<lparr>words := [''cd''],
                 correct_letters := [Some (CHR ''c''), Some (CHR ''d'')],
                 misplaced_letters := (\<lambda>letter. {})(CHR ''a'' := {0}),
                 letter_counts :=
                   map (\<lambda>letter. (letter, if letter \<in> set ''cd'' then (1, 1) else (0, 0)))
                     ascii_lowercase\<rparr>) ! 1
        = Some (CHR ''d'')"
proof -
  let ?st = three_word_solver
  let ?st1 = "?st\<lparr>correct_letters := [None, Some (CHR ''d'')],
                 misplaced_letters := (\<lambda>letter. {})(CHR ''a'' := {0}),
                 letter_counts := AList.update (CHR ''a'') (0, 0)
                    (AList.update (CHR ''d'') (1, 1) (letter_counts ?st))\<rparr>"
  let ?st2 = "?st\<lparr>words := [''cd''],
                 correct_letters := [None, Some (CHR ''d'')],
                 misplaced_letters := (\<lambda>letter. {})(CHR ''a'' := {0}),
                 letter_counts :=
                   map (\<lambda>letter. (letter, if letter \<in> set ''cd'' then (1, 1) else (0, 0)))
                     ascii_lowercase\<rparr>"
  let ?st4 = "?st\<lparr>words := [''cd''],
                 correct_letters := [Some (CHR ''c''), Some (CHR ''d'')],
                 misplaced_letters := (\<lambda>letter. {})(CHR ''a'' := {0}),
                 letter_counts :=
                   map (\<lambda>letter. (letter, if letter \<in> set ''cd'' then (1, 1) else (0, 0)))
                     ascii_lowercase\<rparr>"
  have d1: "list_all (lowercase_word 2) [''ab'', ''cd'', ''ad'']" by code_simp
  have d2: "distinct [''ab'', ''cd'', ''ad'']" by code_simp
  have r: "reachable ?st"
    using d1 d2 three_word_solver_init by (rule reachable.start)
  have g: "''ad'' \<in> set (words ?st)" by code_simp
  have call: "process_feedback ?st ''ad'' [INCORRECT, CORRECT] = Inr ?st1" by code_simp
  have i: "1 < length (correct_letters ?st1)" by simp
  have c: "correct_letters ?st1 ! 1 = Some (CHR ''d'')" by simp
  have round: "accept_feedback ?st ''ad'' [INCORRECT, CORRECT] = Inr ?st2" by code_simp
  have again: "accept_feedback ?st2 ''cd'' [UNKNOWN, UNKNOWN] = Inr ?st2" by code_simp
  have g2: "''cd'' \<in> set (words ?st2)" by simp
  have later: "reaches ?st2 ?st2"
    using reaches.here [of ?st2] g2 again by (rule reaches.round)
  have next_call: "process_feedback ?st2 ''cd'' [CORRECT, CORRECT] = Inr ?st4" by code_simp
  from fixed_letter_stays [OF r g call i c round later] g2 next_call
  have "correct_letters ?st4 ! 1 = Some (CHR ''d'')" by blast
  with r g call round next_call show ?thesis by (intro conjI)
qed

lemma abc_solver_init: "init 3 [''aab'', ''abc'', ''bca''] = Inr abc_solver"
  by code_simp

text \<open>
  Claim C7. In a state the solve loop reaches, let the guess be a candidate that holds a
  letter exactly twice, and let the feedback mark one of the two occurrences Correct and
  the other Incorrect. Then the letter's occurrences in the guess minus its Incorrect
  marks is 1, and whenever \<open>process_feedback\<close> returns, the letter's maximum is 1 and its
  minimum is at least 1. So every word that is within the letter's bounds holds it
  exactly once, and so does the true answer whenever the feedback is fair to it, as the
  judge's is. (A feedback that contradicts every candidate can leave a minimum above 1;
  then no word is within the bounds.)
\<close>

theorem twice_guessed_letter_pinned:
  assumes st: "reachable st" and guess: "guess \<in> set (words st)"
    and len: "length guess = length feedback"
    and two: "count_list guess letter = 2"
    and i: "i < length guess" "guess ! i = letter" "feedback ! i = CORRECT"
    and j: "j < length guess" "guess ! j = letter" "feedback ! j = INCORRECT"
    and run: "process_feedback st guess feedback = Inr st'"
  shows "int (count_list guess letter) - incorrect_count (zip guess feedback) letter = 1
    \<and> (\<exists>lo'. map_of (letter_counts st') letter = Some (lo', 1) \<and> 1 \<le> lo')
    \<and> (\<forall>w. within_bounds st' w letter \<longrightarrow> count_list w letter = 1)
    \<and> (\<forall>answer. fair_feedback answer guess feedback \<longrightarrow> count_list answer letter = 1)"
proof -
  from reachable_settled [OF st] guess have keeps: "spec_keeps st guess"
    by (simp add: settled_def list_all_iff)
  from i(1,2) have "letter \<in> set guess" by auto
  with keeps have "within_bounds st guess letter" by (simp add: spec_keeps_def)
  with two obtain lo hi where look: "map_of (letter_counts st) letter = Some (lo, hi)"
    and hi: "2 \<le> hi"
    by (auto simp: within_bounds_def split: option.splits)
  from counts_of_correct_and_incorrect [OF len two i j]
  have c: "correctish_count (zip guess feedback) letter = 1"
    and k: "incorrect_count (zip guess feedback) letter = 1" by simp_all
  from process_feedback_counts [OF run look] hi
  have new: "map_of (letter_counts st') letter = Some (max 1 lo, 1)"
    by (simp add: c k two)
  have diff: "int (count_list guess letter) - incorrect_count (zip guess feedback) letter = 1"
    by (simp add: k two)
  have pinned: "count_list w letter = 1" if "within_bounds st' w letter" for w
    using that new by (simp add: within_bounds_def)
  have true_count: "count_list answer letter = 1" if fair: "fair_feedback answer guess feedback"
    for answer
  proof -
    from fair have "correctish_count (zip guess feedback) letter \<le> int (count_list answer letter)"
      and "incorrect_count (zip guess feedback) letter \<noteq> 0 \<Longrightarrow>
           int (count_list answer letter)
             \<le> int (count_list guess letter) - incorrect_count (zip guess feedback) letter"
      by (simp_all add: fair_feedback_def)
    with c k two show ?thesis by simp
  qed
  have "\<exists>lo'. map_of (letter_counts st') letter = Some (lo', 1) \<and> 1 \<le> lo'"
    using new by simp
  with diff pinned true_count show ?thesis by blast
qed

theorem twice_guessed_letter_pinned_witness:
  "reachable abc_solver
    \<and> ''aab'' \<in> set (words abc_solver)
    \<and> count_list ''aab'' (CHR ''a'') = 2
    \<and> judge ''abc'' ''aab'' = [CORRECT, INCORRECT, MISPLACED]
    \<and> map_of (letter_counts abc_solver) (CHR ''a'') = Some (1, 2)
    \<and> process_feedback abc_solver ''aab'' [CORRECT, INCORRECT, MISPLACED]
        = Inr (abc_solver
                \<lparr>correct_letters := [Some (CHR ''a''), None, None],
                 misplaced_letters := (\<lambda>letter. {})(CHR ''a'' := {1}, CHR ''b'' := {2}),
                 letter_counts := AList.update (CHR ''a'') (1, 1) (letter_counts abc_solver)\<rparr>)
    \<and> map_of (AList.update (CHR ''a'') (1, 1) (letter_counts abc_solver)) (CHR ''a'')
        = Some (1, 1)
    \<and> count_list ''abc'' (CHR ''a'') = 1"
proof -
  let ?st = abc_solver
  let ?fb = "[CORRECT, INCORRECT, MISPLACED]"
  let ?st' = "?st\<lparr>correct_letters := [Some (CHR ''a''), None, None],
                 misplaced_letters := (\<lambda>letter. {})(CHR ''a'' := {1}, CHR ''b'' := {2}),
                 letter_counts := AList.update (CHR ''a'') (1, 1) (letter_counts ?st)\<rparr>"
  have d1: "list_all (lowercase_word 3) [''aab'', ''abc'', ''bca'']" by code_simp
  have d2: "distinct [''aab'', ''abc'', ''bca'']" by code_simp
  have r: "reachable ?st" using d1 d2 abc_solver_init by (rule reachable.start)
  have g: "''aab'' \<in> set (words ?st)" by code_simp
  have len: "length ''aab'' = length ?fb" by simp
  have two: "count_list ''aab'' (CHR ''a'') = 2" by code_simp
  have i: "0 < length ''aab''" "''aab'' ! 0 = CHR ''a''" "?fb ! 0 = CORRECT" by simp_all
  have j: "1 < length ''aab''" "''aab'' ! 1 = CHR ''a''" "?fb ! 1 = INCORRECT" by simp_all
  have run: "process_feedback ?st ''aab'' ?fb = Inr ?st'" by code_simp
  have jd: "judge ''abc'' ''aab'' = ?fb" by code_simp
  have old: "map_of (letter_counts ?st) (CHR ''a'') = Some (1, 2)" by code_simp
  have fair: "fair_feedback ''abc'' ''aab'' ?fb"
    using judge_fair [of "''aab''" "''abc''"] jd by simp
  note t = twice_guessed_letter_pinned [OF r g len two i j run]
  from t obtain lo' where new: "map_of (letter_counts ?st') (CHR ''a'') = Some (lo', 1)" by blast
  have val: "map_of (letter_counts ?st') (CHR ''a'') = Some (1, 1)" by code_simp
  then have val': "map_of (AList.update (CHR ''a'') (1, 1) (letter_counts ?st)) (CHR ''a'')
        = Some (1, 1)" by simp
  from t fair have true_count: "count_list ''abc'' (CHR ''a'') = 1" by blast
  show ?thesis by (intro conjI r g two jd old run val' true_count)
qed

end
